theory Spec2Isabelle
  imports Main "HOL-Library.Sublist"
begin

section \<open>JavaScript strings and paths\<close>

text \<open>
  The embedding follows the class \<open>FilesystemSearch\<close> (filesystem-search.ts). A JavaScript
  string is a \<^typ>\<open>string\<close>; one \<^typ>\<open>char\<close> stands for one UTF-16 code unit below 256, so
  that \<open>toLowerCase\<close>, \<open>trim\<close> and the regular expression classes \<open>\s\<close> and \<open>\w\<close> are the
  ones of JavaScript on that range. Numbers (\<open>maxResults\<close>, \<open>contextLines\<close>, \<open>maxDepth\<close>)
  are integers.
\<close>

definition is_upper :: "char \<Rightarrow> bool" where
  "is_upper c =
     (let n = (of_char c :: nat)
      in (65 \<le> n \<and> n \<le> 90) \<or> (192 \<le> n \<and> n \<le> 222 \<and> n \<noteq> 215))"

text \<open>Lower-casing adds 32 to the code unit of an upper-case letter, that is, sets bit 5.\<close>

fun lower_char :: "char \<Rightarrow> char" where
  "lower_char (Char b0 b1 b2 b3 b4 b5 b6 b7) =
     (if is_upper (Char b0 b1 b2 b3 b4 b5 b6 b7) then Char b0 b1 b2 b3 b4 True b6 b7
      else Char b0 b1 b2 b3 b4 b5 b6 b7)"

definition toLowerCase :: "string \<Rightarrow> string" where
  "toLowerCase s = map lower_char s"

text \<open>White space of \<open>trim\<close> and of \<open>\s\<close>: TAB, LF, VT, FF, CR, SP and NBSP.\<close>

definition is_white :: "char \<Rightarrow> bool" where
  "is_white c = (let n = (of_char c :: nat) in (9 \<le> n \<and> n \<le> 13) \<or> n = 32 \<or> n = 160)"

text \<open>The class \<open>\w\<close>: ASCII letters, digits and the underscore.\<close>

definition is_word :: "char \<Rightarrow> bool" where
  "is_word c =
     (let n = (of_char c :: nat)
      in (48 \<le> n \<and> n \<le> 57) \<or> (65 \<le> n \<and> n \<le> 90) \<or> (97 \<le> n \<and> n \<le> 122) \<or> n = 95)"

definition trim :: "string \<Rightarrow> string" where
  "trim s = rev (dropWhile is_white (rev (dropWhile is_white s)))"

text \<open>\<open>h.includes(n)\<close>: \<open>n\<close> occurs in \<open>h\<close> as a contiguous substring.\<close>

fun str_includes :: "string \<Rightarrow> string \<Rightarrow> bool" where
  "str_includes [] n = (n = [])"
| "str_includes (c # cs) n = (prefix n (c # cs) \<or> str_includes cs n)"

text \<open>\<open>s.split('\n')\<close>: the pieces between line feeds; the empty string gives one empty piece.\<close>

fun split_nl :: "string \<Rightarrow> string list" where
  "split_nl [] = [[]]"
| "split_nl (c # cs) =
     (if c = CHR 0x0A then [] # split_nl cs
      else (case split_nl cs of [] \<Rightarrow> [[c]] | t # ts \<Rightarrow> (c # t) # ts))"

text \<open>\<open>s.split(/\s+/)\<close>: the pieces between maximal runs of white space.\<close>

fun split_ws :: "string \<Rightarrow> string list" where
  "split_ws [] = [[]]"
| "split_ws (c # cs) =
     (if is_white c then (if cs \<noteq> [] \<and> is_white (hd cs) then split_ws cs else [] # split_ws cs)
      else (case split_ws cs of [] \<Rightarrow> [[c]] | t # ts \<Rightarrow> (c # t) # ts))"

text \<open>\<open>lines.join('\n')\<close>.\<close>

fun join_nl :: "string list \<Rightarrow> string" where
  "join_nl [] = []"
| "join_nl [l] = l"
| "join_nl (l # ls) = l @ [CHR 0x0A] @ join_nl ls"

text \<open>
  \<open>xs.slice(start, end)\<close>: a negative index counts from the end of the array, both indices
  are clamped to the array, and an empty range gives the empty array.
\<close>

definition slice :: "'a list \<Rightarrow> int \<Rightarrow> int \<Rightarrow> 'a list" where
  "slice xs start end =
     (let len = int (length xs);
          k = (if start < 0 then max (len + start) 0 else min start len);
          final = (if end < 0 then max (len + end) 0 else min end len)
      in take (nat (final - k)) (drop (nat k) xs))"

text \<open>
  \<open>s.replace(pat, '')\<close> with a string pattern: the first occurrence of \<open>pat\<close> is removed.
\<close>

fun remove_first :: "string \<Rightarrow> string \<Rightarrow> string" where
  "remove_first pat [] = []"
| "remove_first pat (c # cs) =
     (if prefix pat (c # cs) then drop (length pat) (c # cs) else c # remove_first pat cs)"

text \<open>
  \<open>path.basename(p)\<close> of Node on POSIX: the last component of the path. With a second
  argument the extension is cut from the component, unless the component is the extension
  itself; a path equal to the extension gives the empty string. (The paths of this program
  never end in a slash.)
\<close>

definition basename :: "string \<Rightarrow> string" where
  "basename p =
     rev (takeWhile (\<lambda>c. c \<noteq> CHR ''/'') (dropWhile (\<lambda>c. c = CHR ''/'') (rev p)))"

definition basename_ext :: "string \<Rightarrow> string \<Rightarrow> string" where
  "basename_ext p ext =
     (if ext \<noteq> [] \<and> length ext \<le> length p then
        (if ext = p then []
         else let b = basename p
              in if suffix ext b \<and> b \<noteq> ext then take (length b - length ext) b else b)
      else basename p)"

section \<open>The vault on disk\<close>

text \<open>
  A directory entry is a file, a directory with its entries, a directory whose \<open>readdir\<close>
  fails, or something else (a socket, a dangling link). \<open>readFile\<close> maps the path of a file,
  relative to the vault, to its text, or to \<open>None\<close> when reading it fails.
\<close>

datatype dirent =
    FileEnt string
  | DirEnt string "dirent list"
  | BadDirEnt string
  | OtherEnt string

fun name :: "dirent \<Rightarrow> string" where
  "name (FileEnt n) = n"
| "name (DirEnt n es) = n"
| "name (BadDirEnt n) = n"
| "name (OtherEnt n) = n"

record vault =
  root :: "dirent list option"
  readFile :: "string \<Rightarrow> string option"

datatype error = ReaddirFailed | TypeError

text \<open>\<open>path.relative(baseDir, path.join(dir, entry.name))\<close>, with \<open>dir\<close> relative to the vault.\<close>

definition rel_join :: "string \<Rightarrow> string \<Rightarrow> string" where
  "rel_join dir n = (if dir = [] then n else dir @ ''/'' @ n)"

text \<open>
  \<open>walk\<close> inside \<open>getAllMarkdownFiles\<close>: the third argument is the array \<open>files\<close> that the
  walk pushes to. A failing \<open>readdir\<close> rejects the whole walk.
\<close>

fun walk :: "string \<Rightarrow> dirent list \<Rightarrow> string list \<Rightarrow> error + string list" where
  "walk dir [] files = Inr files"
| "walk dir (e # es) files =
     (if prefix ''.'' (name e) \<or> name e = ''node_modules'' then walk dir es files
      else (case e of
              DirEnt n sub \<Rightarrow>
                (case walk (rel_join dir n) sub files of
                   Inl err \<Rightarrow> Inl err
                 | Inr files' \<Rightarrow> walk dir es files')
            | BadDirEnt n \<Rightarrow> Inl ReaddirFailed
            | FileEnt n \<Rightarrow>
                (if suffix ''.md'' n then walk dir es (files @ [rel_join dir n])
                 else walk dir es files)
            | OtherEnt n \<Rightarrow> walk dir es files))"

definition getAllMarkdownFiles :: "vault \<Rightarrow> error + string list" where
  "getAllMarkdownFiles v =
     (case root v of None \<Rightarrow> Inl ReaddirFailed | Some es \<Rightarrow> walk [] es [])"

section \<open>Metadata extraction\<close>

text \<open>
  \<open>JSON.parse\<close> is a parameter \<open>P\<close> of the model: it gives the parsed value, or \<open>None\<close> where
  it throws. The numbers of JSON are an abstract type \<open>'n\<close>.
\<close>

datatype 'n json =
    JNull
  | JBool bool
  | JNum 'n
  | JStr string
  | JArr "'n json list"
  | JObj "(string \<times> 'n json) list"

text \<open>
  The front-matter object. An object has its own properties, kept in the order in which they
  were created, and a prototype: \<open>Object.prototype\<close> for the literal \<open>{}\<close>, or \<open>null\<close>, or a
  parsed JSON object or array that an assignment to \<open>__proto__\<close> has put there. A parsed
  JSON object \<open>JObj\<close> lists one pair for each of its own properties.
\<close>

datatype 'n proto =
    Object_prototype
  | Null_prototype
  | Object_value "(string \<times> 'n json) list"
  | Array_value "'n json list"

record 'n js_object =
  own :: "(string \<times> 'n json) list"
  prototype :: "'n proto"

type_synonym 'n frontmatter = "'n js_object"

text \<open>The object literal \<open>{}\<close>.\<close>

definition empty_object :: "'n js_object" where
  "empty_object = \<lparr>own = [], prototype = Object_prototype\<rparr>"

text \<open>Creating an own property, or giving a new value to the one that exists.\<close>

definition define_own :: "(string \<times> 'n json) list \<Rightarrow> string \<Rightarrow> 'n json \<Rightarrow> (string \<times> 'n json) list" where
  "define_own ps k v =
     (if k \<in> fst ` set ps then map (\<lambda>(k', v'). if k' = k then (k', v) else (k', v')) ps
      else ps @ [(k, v)])"

text \<open>
  The assignment \<open>result[key] = value\<close>. Every key but \<open>__proto__\<close> becomes an own property:
  the properties it could find on the prototype chain are writable data properties. For
  the key \<open>__proto__\<close> the assignment looks for the property along the chain. An own
  property, or a \<open>__proto__\<close> property of a parsed object that is the prototype, makes it an
  own property, and so does a \<open>null\<close> prototype, where the chain ends. Otherwise it reaches
  the setter of \<open>Object.prototype\<close>, which makes an object, an array or \<open>null\<close> the new
  prototype and ignores every other value.
\<close>

definition js_set :: "'n js_object \<Rightarrow> string \<Rightarrow> 'n json \<Rightarrow> 'n js_object" where
  "js_set obj key v =
     (let own_set = obj\<lparr>own := define_own (own obj) key v\<rparr>;
          setter =
            (case v of
               JObj kvs \<Rightarrow> obj\<lparr>prototype := Object_value kvs\<rparr>
             | JArr xs \<Rightarrow> obj\<lparr>prototype := Array_value xs\<rparr>
             | JNull \<Rightarrow> obj\<lparr>prototype := Null_prototype\<rparr>
             | _ \<Rightarrow> obj)
      in if key \<noteq> ''__proto__'' then own_set
         else if key \<in> fst ` set (own obj) then own_set
         else (case prototype obj of
                 Null_prototype \<Rightarrow> own_set
               | Object_value kvs \<Rightarrow> (if key \<in> fst ` set kvs then own_set else setter)
               | Array_value xs \<Rightarrow> setter
               | Object_prototype \<Rightarrow> setter))"

text \<open>
  Reading \<open>frontmatter.tags\<close>: the own property, or else the property of a parsed object
  that is the prototype; arrays, \<open>Object.prototype\<close> and \<open>null\<close> have no such property.
\<close>

definition get_tags :: "'n js_object \<Rightarrow> 'n json option" where
  "get_tags obj =
     (case map_of (own obj) ''tags'' of
        Some v \<Rightarrow> Some v
      | None \<Rightarrow> (case prototype obj of Object_value kvs \<Rightarrow> map_of kvs ''tags'' | _ \<Rightarrow> None))"

text \<open>The text before the first occurrence of a pattern, if it occurs.\<close>

fun before_first :: "string \<Rightarrow> string \<Rightarrow> string option" where
  "before_first pat [] = (if pat = [] then Some [] else None)"
| "before_first pat (c # cs) =
     (if prefix pat (c # cs) then Some [] else map_option ((#) c) (before_first pat cs))"

definition is_quote :: "char \<Rightarrow> bool" where
  "is_quote c = (c = CHR 0x22 \<or> c = CHR 0x27)"

text \<open>\<open>value.replace(/^["']|["']$/g, '')\<close>: one quote is cut at the start, then one at the end.\<close>

definition strip_quotes :: "string \<Rightarrow> string" where
  "strip_quotes v =
     (let v1 = (case v of [] \<Rightarrow> [] | c # cs \<Rightarrow> if is_quote c then cs else v)
      in if v1 \<noteq> [] \<and> is_quote (last v1) then butlast v1 else v1)"

text \<open>The body of the loop over the lines of the front-matter block.\<close>

definition parse_line :: "(string \<Rightarrow> 'n json option) \<Rightarrow> string \<Rightarrow> (string \<times> 'n json) option" where
  "parse_line P line =
     (let left = takeWhile (\<lambda>c. c \<noteq> CHR '':'') line;
          right = dropWhile (\<lambda>c. c \<noteq> CHR '':'') line
      in if right \<noteq> [] \<and> left \<noteq> [] then
           (let key = trim left;
                cleanValue = strip_quotes (trim (tl right))
            in if prefix ''['' cleanValue \<or> prefix ''{'' cleanValue then
                 (case P cleanValue of
                    Some j \<Rightarrow> Some (key, j)
                  | None \<Rightarrow> Some (key, JStr cleanValue))
               else Some (key, JStr cleanValue))
         else None)"

text \<open>
  \<open>extractFrontmatter\<close>: the regular expression \<open>/^---\n([\s\S]*?)\n---/\<close> matches a text that
  starts with the marker line and captures the shortest text up to a line feed followed by
  the marker. The lines of that text are assigned to \<open>{}\<close> one after the other.
\<close>

definition extractFrontmatter :: "(string \<Rightarrow> 'n json option) \<Rightarrow> string \<Rightarrow> 'n frontmatter" where
  "extractFrontmatter P content =
     (if prefix [CHR ''-'', CHR ''-'', CHR ''-'', CHR 0x0A] content then
        (case before_first [CHR 0x0A, CHR ''-'', CHR ''-'', CHR ''-''] (drop 4 content) of
           None \<Rightarrow> empty_object
         | Some yaml \<Rightarrow>
             foldl (\<lambda>result line.
                      case parse_line P line of
                        None \<Rightarrow> result
                      | Some (key, v) \<Rightarrow> js_set result key v)
               empty_object (split_nl yaml))
      else empty_object)"

text \<open>
  \<open>set.add(x)\<close> on a \<open>Set\<close> kept in insertion order. In a set of strings equal strings are the
  same element. The tag set may also hold the parsed JSON values of a \<open>tags\<close> list: there
  arrays and objects are compared by reference, so two of them are never the same element.
\<close>

definition set_add :: "string list \<Rightarrow> string \<Rightarrow> string list" where
  "set_add s x = (if x \<in> set s then s else s @ [x])"

fun is_primitive :: "'n json \<Rightarrow> bool" where
  "is_primitive (JArr xs) = False"
| "is_primitive (JObj kvs) = False"
| "is_primitive j = True"

definition tag_add :: "'n json list \<Rightarrow> 'n json \<Rightarrow> 'n json list" where
  "tag_add s x = (if is_primitive x \<and> x \<in> set s then s else s @ [x])"

text \<open>The matches of \<open>/#[\w\-\_\/]+/g\<close>, from left to right.\<close>

definition is_tag_char :: "char \<Rightarrow> bool" where
  "is_tag_char c = (is_word c \<or> c = CHR ''-'' \<or> c = CHR ''_'' \<or> c = CHR ''/'')"

function inline_tags :: "string \<Rightarrow> string list" where
  "inline_tags [] = []"
| "inline_tags (c # cs) =
     (if c = CHR ''#'' \<and> takeWhile is_tag_char cs \<noteq> []
      then (c # takeWhile is_tag_char cs) # inline_tags (dropWhile is_tag_char cs)
      else inline_tags cs)"
  by pat_completeness auto
termination
  by (relation "measure length") (auto simp: length_dropWhile_le less_Suc_eq_le)

definition extractTags :: "(string \<Rightarrow> 'n json option) \<Rightarrow> string \<Rightarrow> 'n json list" where
  "extractTags P content =
     (let tags0 =
            (case get_tags (extractFrontmatter P content) of
               Some (JArr xs) \<Rightarrow> foldl tag_add [] xs
             | Some (JStr s) \<Rightarrow> (if s \<noteq> [] then [JStr s] else [])
             | _ \<Rightarrow> [])
      in foldl tag_add tags0 (map JStr (inline_tags content)))"

text \<open>
  \<open>extractLinks\<close>: the matches of \<open>/\[\[([^\]]+)\]\]/g\<close>. At a position the expression matches
  two opening brackets, the longest non-empty run of characters other than \<open>]\<close>, and two
  closing brackets; the run is the captured reference and the search goes on after the match.
\<close>

definition link_at :: "string \<Rightarrow> (string \<times> string) option" where
  "link_at s =
     (if prefix ''[['' s then
        (let body = drop 2 s;
             target = takeWhile (\<lambda>c. c \<noteq> CHR '']'') body;
             rest = dropWhile (\<lambda>c. c \<noteq> CHR '']'') body
         in if target \<noteq> [] \<and> prefix '']]'' rest then Some (target, drop 2 rest) else None)
      else None)"

function extractLinks :: "string \<Rightarrow> string list" where
  "extractLinks [] = []"
| "extractLinks (c # cs) =
     (case link_at (c # cs) of
        Some (target, rest) \<Rightarrow> target # extractLinks rest
      | None \<Rightarrow> extractLinks cs)"
  by pat_completeness auto
termination
proof (relation "measure length")
  fix c cs x2 target rest
  assume a: "link_at (c # cs) = Some x2" "(target, rest) = x2"
  then have r: "rest = drop 2 (dropWhile (\<lambda>c. c \<noteq> CHR '']'') (drop 2 (c # cs)))"
    and p: "prefix ''[['' (c # cs)"
    by (auto simp: link_at_def Let_def split: if_splits)
  from p have "2 \<le> length (c # cs)"
    by (auto simp: prefix_def)
  moreover have "length (dropWhile (\<lambda>c. c \<noteq> CHR '']'') (drop 2 (c # cs))) \<le> length (c # cs) - 2"
    using length_dropWhile_le [of "\<lambda>c. c \<noteq> CHR '']''" "drop 2 (c # cs)"] by simp
  ultimately show "(rest, c # cs) \<in> measure length"
    using r by simp
qed simp_all

section \<open>The link graph\<close>

text \<open>
  \<open>linkCache\<close> and \<open>backlinksCache\<close> are maps from a path to a \<open>Set\<close> of strings, kept as the
  list of its elements in insertion order. \<open>new Set(links)\<close> adds the links one by one.
\<close>

record link_graph =
  linkCache :: "string \<Rightarrow> string list option"
  backlinksCache :: "string \<Rightarrow> string list option"

definition new_Set :: "string list \<Rightarrow> string list" where
  "new_Set xs = foldl set_add [] xs"

text \<open>The \<open>files.find(...)\<close> of \<open>buildLinkGraph\<close>: the first file that a link names.\<close>

definition matches_link :: "string \<Rightarrow> string \<Rightarrow> bool" where
  "matches_link link f =
     (basename_ext f ''.md'' = link \<or> f = link @ ''.md'' \<or> suffix (''/'' @ link @ ''.md'') f)"

definition linkedFile :: "string list \<Rightarrow> string \<Rightarrow> string option" where
  "linkedFile files link = List.find (matches_link link) files"

text \<open>
  The loop \<open>for (const link of links)\<close>: a link whose file is found (and is a non-empty
  string, as \<open>if (linkedFile)\<close> asks) adds \<open>file\<close> to the backlinks of that file.
\<close>

fun add_backlinks ::
  "string list \<Rightarrow> string \<Rightarrow> string list \<Rightarrow> (string \<Rightarrow> string list option) \<Rightarrow> (string \<Rightarrow> string list option)"
where
  "add_backlinks files file [] bl = bl"
| "add_backlinks files file (link # links) bl =
     (case linkedFile files link of
        None \<Rightarrow> add_backlinks files file links bl
      | Some lf \<Rightarrow>
          (if lf = [] then add_backlinks files file links bl
           else add_backlinks files file links
                  (bl(lf \<mapsto> set_add (case bl lf of None \<Rightarrow> [] | Some s \<Rightarrow> s) file))))"

text \<open>The loop \<open>for (const file of files)\<close> of \<open>buildLinkGraph\<close>; a file that cannot be read is skipped.\<close>

fun build_loop ::
  "string list \<Rightarrow> (string \<Rightarrow> string option) \<Rightarrow> string list \<Rightarrow> link_graph \<Rightarrow> link_graph"
where
  "build_loop files read [] g = g"
| "build_loop files read (file # rest) g =
     (case read file of
        None \<Rightarrow> build_loop files read rest g
      | Some content \<Rightarrow>
          (let links = extractLinks content
           in build_loop files read rest
                \<lparr>linkCache = (linkCache g)(file \<mapsto> new_Set links),
                 backlinksCache = add_backlinks files file links (backlinksCache g)\<rparr>))"

text \<open>
  \<open>buildLinkGraph\<close> clears both caches, walks the vault and runs the loop; it fails when the
  walk fails.
\<close>

definition buildLinkGraph :: "vault \<Rightarrow> error + link_graph" where
  "buildLinkGraph v =
     (case getAllMarkdownFiles v of
        Inl e \<Rightarrow> Inl e
      | Inr files \<Rightarrow>
          Inr (build_loop files (readFile v) files
                 \<lparr>linkCache = Map.empty, backlinksCache = Map.empty\<rparr>))"

text \<open>\<open>this.linkCache.get(file) || new Set()\<close> and the same for the backlinks.\<close>

definition forward :: "link_graph \<Rightarrow> string \<Rightarrow> string list" where
  "forward g file = (case linkCache g file of None \<Rightarrow> [] | Some s \<Rightarrow> s)"

definition backward :: "link_graph \<Rightarrow> string \<Rightarrow> string list" where
  "backward g file = (case backlinksCache g file of None \<Rightarrow> [] | Some s \<Rightarrow> s)"

text \<open>
  The size of the search tree below a file when \<open>n\<close> more hops are allowed: it bounds the
  number of queue entries that the file can still cause.
\<close>

fun expansion :: "(string \<Rightarrow> string list) \<Rightarrow> (string \<Rightarrow> string list) \<Rightarrow> nat \<Rightarrow> string \<Rightarrow> nat" where
  "expansion fw bw 0 f = 1"
| "expansion fw bw (Suc n) f = Suc (sum_list (map (expansion fw bw n) (fw f @ bw f)))"

text \<open>
  The \<open>while (queue.length > 0)\<close> loop of \<open>isConnected\<close>, with the set \<open>visited\<close> and the queue
  of \<open>{file, depth}\<close> entries as arguments.
\<close>

function bfs ::
  "(string \<Rightarrow> string list) \<Rightarrow> (string \<Rightarrow> string list) \<Rightarrow> string \<Rightarrow> int \<Rightarrow> string list
     \<Rightarrow> (string \<times> int) list \<Rightarrow> bool"
where
  "bfs fw bw file2 maxDepth visited [] = False"
| "bfs fw bw file2 maxDepth visited ((file, depth) # queue) =
     (if file = file2 then True
      else if depth \<ge> maxDepth then bfs fw bw file2 maxDepth visited queue
      else if file \<in> set visited then bfs fw bw file2 maxDepth visited queue
      else bfs fw bw file2 maxDepth (visited @ [file])
             (queue @ map (\<lambda>link. (link, depth + 1)) (fw file)
                    @ map (\<lambda>backlink. (backlink, depth + 1)) (bw file)))"
  by pat_completeness auto
termination
proof (relation "measure (\<lambda>(fw, bw, file2, maxDepth, visited, queue).
          sum_list (map (\<lambda>(f, d). expansion fw bw (nat (maxDepth - d)) f) queue))")
  have pos: "0 < expansion fw bw n f" for fw bw :: "string \<Rightarrow> string list" and n f
    by (cases n) simp_all
  fix fw bw :: "string \<Rightarrow> string list" and t f :: string and maxDepth depth :: int
    and visited :: "string list" and queue :: "(string \<times> int) list"
  have pop: "((fw, bw, t, maxDepth, visited, queue), fw, bw, t, maxDepth, visited, (f, depth) # queue)
        \<in> measure (\<lambda>(fw, bw, file2, maxDepth, visited, queue).
          sum_list (map (\<lambda>(f, d). expansion fw bw (nat (maxDepth - d)) f) queue))"
    using pos [of fw bw "nat (maxDepth - depth)" f] by simp
  show "((fw, bw, t, maxDepth, visited, queue), fw, bw, t, maxDepth, visited, (f, depth) # queue)
        \<in> measure (\<lambda>(fw, bw, file2, maxDepth, visited, queue).
          sum_list (map (\<lambda>(f, d). expansion fw bw (nat (maxDepth - d)) f) queue))"
    by (rule pop)
  show "((fw, bw, t, maxDepth, visited, queue), fw, bw, t, maxDepth, visited, (f, depth) # queue)
        \<in> measure (\<lambda>(fw, bw, file2, maxDepth, visited, queue).
          sum_list (map (\<lambda>(f, d). expansion fw bw (nat (maxDepth - d)) f) queue))"
    by (rule pop)
  assume "\<not> maxDepth \<le> depth"
  then have n: "nat (maxDepth - depth) = Suc (nat (maxDepth - (depth + 1)))"
    by simp
  show "((fw, bw, t, maxDepth, visited @ [f],
          queue @ map (\<lambda>link. (link, depth + 1)) (fw f)
                @ map (\<lambda>backlink. (backlink, depth + 1)) (bw f)),
         fw, bw, t, maxDepth, visited, (f, depth) # queue)
        \<in> measure (\<lambda>(fw, bw, file2, maxDepth, visited, queue).
          sum_list (map (\<lambda>(f, d). expansion fw bw (nat (maxDepth - d)) f) queue))"
    by (simp add: n comp_def)
qed simp

definition isConnected :: "link_graph \<Rightarrow> string \<Rightarrow> string \<Rightarrow> int \<Rightarrow> bool" where
  "isConnected g file1 file2 maxDepth =
     (if file1 = file2 then True
      else if maxDepth \<le> 0 then False
      else bfs (forward g) (backward g) file2 maxDepth [] [(file1, 0)])"

section \<open>Graph search\<close>

record 'n graph_result =
  g_filename :: string
  g_path :: string
  outgoingLinks :: "string list"
  incomingLinks :: "string list"
  tags :: "'n json list"
  g_frontmatter :: "'n frontmatter"

text \<open>
  The loop of \<open>graphSearch\<close> over the files. \<open>startFile\<close> is optional, and the test
  \<open>startFile && ...\<close> also takes the empty string as no start file.
\<close>

fun graph_loop ::
  "(string \<Rightarrow> 'n json option) \<Rightarrow> (string \<Rightarrow> string option) \<Rightarrow> link_graph \<Rightarrow> int \<Rightarrow> string option \<Rightarrow> bool
     \<Rightarrow> string list \<Rightarrow> 'n graph_result list \<Rightarrow> 'n graph_result list"
where
  "graph_loop P read g maxDepth startFile includeOrphans [] results = results"
| "graph_loop P read g maxDepth startFile includeOrphans (file # rest) results =
     (case read file of
        None \<Rightarrow> graph_loop P read g maxDepth startFile includeOrphans rest results
      | Some content \<Rightarrow>
          (let frontmatter = extractFrontmatter P content;
               tags = extractTags P content;
               outgoingLinks = forward g file;
               incomingLinks = backward g file
           in if (case startFile of None \<Rightarrow> False
                  | Some sf \<Rightarrow> sf \<noteq> [] \<and> \<not> isConnected g file sf maxDepth)
              then graph_loop P read g maxDepth startFile includeOrphans rest results
              else if \<not> includeOrphans \<and> length outgoingLinks = 0 \<and> length incomingLinks = 0
              then graph_loop P read g maxDepth startFile includeOrphans rest results
              else graph_loop P read g maxDepth startFile includeOrphans rest
                     (results @ [\<lparr>g_filename = basename file, g_path = file,
                                  outgoingLinks = outgoingLinks, incomingLinks = incomingLinks,
                                  tags = tags, g_frontmatter = frontmatter\<rparr>])))"

text \<open>
  \<open>graphSearch\<close>; the options default to \<open>maxDepth = 2\<close>, no start file and
  \<open>includeOrphans = false\<close>. It builds the link graph and then walks the vault again for
  its own loop.
\<close>

definition graphSearch ::
  "(string \<Rightarrow> 'n json option) \<Rightarrow> vault \<Rightarrow> int \<Rightarrow> string option \<Rightarrow> bool \<Rightarrow> error + 'n graph_result list"
where
  "graphSearch P v maxDepth startFile includeOrphans =
     (case buildLinkGraph v of
        Inl e \<Rightarrow> Inl e
      | Inr g \<Rightarrow>
          (case getAllMarkdownFiles v of
             Inl e \<Rightarrow> Inl e
           | Inr files \<Rightarrow>
               Inr (graph_loop P (readFile v) g maxDepth startFile includeOrphans files [])))"

section \<open>Content search\<close>

record match =
  m_line :: int
  m_content :: string
  m_context :: string

record 'n search_result =
  filename :: string
  path :: string
  matches :: "match list"
  frontmatter :: "'n frontmatter"

datatype searchType = Content | Filename | Tags | Links | Frontmatter

text \<open>
  \<open>tags.some(tag => tag.toLowerCase().includes(queryLower))\<close>: the tags are tried in order,
  and a tag that is not a string has no \<open>toLowerCase\<close>, so the call throws a \<open>TypeError\<close>.
\<close>

fun tags_some :: "'n json list \<Rightarrow> string \<Rightarrow> error + bool" where
  "tags_some [] queryLower = Inr False"
| "tags_some (JStr tag # ts) queryLower =
     (if str_includes (toLowerCase tag) queryLower then Inr True else tags_some ts queryLower)"
| "tags_some (j # ts) queryLower = Inl TypeError"

text \<open>The loop over the lines of a document that builds the match records of \<open>searchFile\<close>.\<close>

definition line_matches :: "string \<Rightarrow> string \<Rightarrow> int \<Rightarrow> match list" where
  "line_matches content queryLower contextLines =
     (let lines = split_nl content
      in List.map_filter
           (\<lambda>i. if str_includes (toLowerCase (lines ! i)) queryLower then
                   (let startLine = max 0 (int i - contextLines);
                        endLine = min (int (length lines) - 1) (int i + contextLines)
                    in Some \<lparr>m_line = int i + 1, m_content = lines ! i,
                             m_context = join_nl (slice lines startLine (endLine + 1))\<rparr>)
                 else None)
           [0 ..< length lines])"

text \<open>
  \<open>searchFile\<close>: \<open>Inr None\<close> is the result \<open>null\<close>, and \<open>Inl\<close> an exception. \<open>JSON.stringify\<close> is
  the parameter \<open>S\<close>.
\<close>

definition searchFile ::
  "(string \<Rightarrow> 'n json option) \<Rightarrow> ('n frontmatter \<Rightarrow> string) \<Rightarrow> string \<Rightarrow> string \<Rightarrow> string \<Rightarrow> searchType
     \<Rightarrow> int \<Rightarrow> bool \<Rightarrow> error + 'n search_result option"
where
  "searchFile P S filePath content query searchType contextLines includeContent =
     (let filename = basename filePath;
          queryLower = toLowerCase query;
          found =
            (case searchType of
               Filename \<Rightarrow> Inr (str_includes (toLowerCase filename) queryLower)
             | Tags \<Rightarrow> tags_some (extractTags P content) queryLower
             | Links \<Rightarrow>
                 Inr (list_ex (\<lambda>link. str_includes (toLowerCase link) queryLower)
                        (extractLinks content))
             | Frontmatter \<Rightarrow>
                 Inr (str_includes (toLowerCase (S (extractFrontmatter P content))) queryLower)
             | Content \<Rightarrow> Inr (str_includes (toLowerCase content) queryLower))
      in case found of
           Inl e \<Rightarrow> Inl e
         | Inr False \<Rightarrow> Inr None
         | Inr True \<Rightarrow>
             Inr (Some \<lparr>filename = filename, path = filePath,
                        matches =
                          (if includeContent \<and> (searchType = Content \<or> searchType = Filename)
                           then line_matches content queryLower contextLines else []),
                        frontmatter = extractFrontmatter P content\<rparr>))"

text \<open>
  The loop of \<open>search\<close>: it stops at \<open>maxResults\<close> results, and skips a file when reading it
  or searching it throws.
\<close>

fun search_loop ::
  "(string \<Rightarrow> 'n json option) \<Rightarrow> ('n frontmatter \<Rightarrow> string) \<Rightarrow> (string \<Rightarrow> string option) \<Rightarrow> string \<Rightarrow> int
     \<Rightarrow> int \<Rightarrow> searchType \<Rightarrow> bool \<Rightarrow> string list \<Rightarrow> 'n search_result list \<Rightarrow> 'n search_result list"
where
  "search_loop P S read query maxResults contextLines searchType includeContent [] results = results"
| "search_loop P S read query maxResults contextLines searchType includeContent (file # rest) results =
     (if int (length results) \<ge> maxResults then results
      else (case read file of
              None \<Rightarrow>
                search_loop P S read query maxResults contextLines searchType includeContent rest results
            | Some content \<Rightarrow>
                (case searchFile P S file content query searchType contextLines includeContent of
                   Inr (Some result) \<Rightarrow>
                     search_loop P S read query maxResults contextLines searchType includeContent rest
                       (results @ [result])
                 | _ \<Rightarrow>
                     search_loop P S read query maxResults contextLines searchType includeContent rest
                       results)))"

text \<open>
  \<open>search\<close>; the options default to \<open>maxResults = 20\<close>, \<open>contextLines = 2\<close>,
  \<open>includeContent = true\<close> and \<open>searchType = 'content'\<close>.
\<close>

definition search ::
  "(string \<Rightarrow> 'n json option) \<Rightarrow> ('n frontmatter \<Rightarrow> string) \<Rightarrow> vault \<Rightarrow> string \<Rightarrow> int \<Rightarrow> int
     \<Rightarrow> searchType \<Rightarrow> bool \<Rightarrow> error + 'n search_result list"
where
  "search P S v query maxResults contextLines searchType includeContent =
     (case getAllMarkdownFiles v of
        Inl e \<Rightarrow> Inl e
      | Inr files \<Rightarrow>
          Inr (search_loop P S (readFile v) query maxResults contextLines searchType includeContent
                 files []))"

section \<open>Fuzzy search\<close>

record 'n scored =
  s_file :: string
  score :: int
  result :: "'n search_result"

text \<open>The score that the name of a file earns, before the file is read.\<close>

definition filename_score :: "string \<Rightarrow> string \<Rightarrow> int" where
  "filename_score file query =
     (let filename = toLowerCase (basename file);
          queryLower = toLowerCase query;
          queryParts = split_ws queryLower
      in (if remove_first ''.md'' filename = queryLower then 100 else 0)
         + (if str_includes filename queryLower then 50 else 0)
         + (if list_all (\<lambda>part. str_includes filename part) queryParts then 30 else 0))"

text \<open>The score that the text of a file adds.\<close>

definition content_score :: "string \<Rightarrow> string \<Rightarrow> int" where
  "content_score content query =
     (let contentLower = toLowerCase content;
          queryLower = toLowerCase query;
          queryParts = split_ws queryLower
      in (if str_includes contentLower queryLower then 20 else 0)
         + (if list_all (\<lambda>part. str_includes contentLower part) queryParts then 10 else 0))"

text \<open>The match records of \<open>fuzzySearch\<close>: the first three lines that contain the query.\<close>

definition fuzzy_matches :: "string \<Rightarrow> string \<Rightarrow> match list" where
  "fuzzy_matches content queryLower =
     (let lines = split_nl content
      in take 3
           (List.map_filter
              (\<lambda>i. if str_includes (toLowerCase (lines ! i)) queryLower then
                      Some \<lparr>m_line = int i + 1, m_content = lines ! i,
                            m_context =
                              join_nl (slice lines (max 0 (int i - 1))
                                         (min (int (length lines)) (int i + 2)))\<rparr>
                    else None)
              [0 ..< length lines]))"

text \<open>The body of the loop of \<open>fuzzySearch\<close>: the entry pushed to \<open>scored\<close> for a file, if any.\<close>

definition fuzzy_entry ::
  "(string \<Rightarrow> 'n json option) \<Rightarrow> (string \<Rightarrow> string option) \<Rightarrow> string \<Rightarrow> string \<Rightarrow> 'n scored option"
where
  "fuzzy_entry P read query file =
     (case read file of
        None \<Rightarrow> None
      | Some content \<Rightarrow>
          (let score = filename_score file query + content_score content query
           in if score > 0 then
                Some \<lparr>s_file = file, score = score,
                      result = \<lparr>filename = basename file, path = file,
                                matches = fuzzy_matches content (toLowerCase query),
                                frontmatter = extractFrontmatter P content\<rparr>\<rparr>
              else None))"

text \<open>
  \<open>scored.sort((a, b) => b.score - a.score)\<close> is a stable sort by descending score; the
  first \<open>maxResults\<close> entries are returned (\<open>maxResults\<close> defaults to 10).
\<close>

definition fuzzy_rank :: "'n scored list \<Rightarrow> int \<Rightarrow> 'n search_result list" where
  "fuzzy_rank scored maxResults = map result (slice (sort_key (\<lambda>a. - score a) scored) 0 maxResults)"

definition fuzzySearch ::
  "(string \<Rightarrow> 'n json option) \<Rightarrow> vault \<Rightarrow> string \<Rightarrow> int \<Rightarrow> error + 'n search_result list"
where
  "fuzzySearch P v query maxResults =
     (case getAllMarkdownFiles v of
        Inl e \<Rightarrow> Inl e
      | Inr files \<Rightarrow>
          Inr (fuzzy_rank (List.map_filter (fuzzy_entry P (readFile v) query) files) maxResults))"

section \<open>Notions used to state the properties\<close>

text \<open>
  A document body written as pieces of plain text, each followed by a wiki link, and a last
  piece of text. A piece of text is plain when no link can start in it: it holds no two
  opening brackets in a row and does not end in an opening bracket.
\<close>

definition plain :: "string \<Rightarrow> bool" where
  "plain t = (\<not> str_includes t ''[['' \<and> (t = [] \<or> last t \<noteq> CHR ''[''))"

fun wiki_text :: "(string \<times> string) list \<Rightarrow> string \<Rightarrow> string" where
  "wiki_text [] tail = tail"
| "wiki_text ((t, l) # segs) tail = t @ ''[['' @ l @ '']]'' @ wiki_text segs tail"

text \<open>
  The link \<open>[[l]]\<close> occurs in a body after the text \<open>t\<close> and before the text \<open>r\<close>: the
  reference \<open>l\<close> is not empty and holds no closing bracket.
\<close>

definition link_occurs :: "string \<Rightarrow> string \<Rightarrow> string \<Rightarrow> string \<Rightarrow> bool" where
  "link_occurs body t l r = (body = t @ ''[['' @ l @ '']]'' @ r \<and> l \<noteq> [] \<and> CHR '']'' \<notin> set l)"

text \<open>The elements of a cached \<open>Set\<close>, or of no set at all.\<close>

definition get_set :: "(string \<Rightarrow> string list option) \<Rightarrow> string \<Rightarrow> string set" where
  "get_set m k = (case m k of None \<Rightarrow> {} | Some s \<Rightarrow> set s)"

text \<open>
  The example corpus of the specification: \<open>A.md\<close> links to \<open>B\<close>, \<open>B.md\<close> has no links and
  \<open>C.md\<close> links to a note that does not exist; and the link graph built for it.
\<close>

definition vault_abc :: vault where
  "vault_abc =
     \<lparr>root = Some [FileEnt ''A.md'', FileEnt ''B.md'', FileEnt ''C.md''],
      readFile = [''A.md'' \<mapsto> ''[[B]]'', ''B.md'' \<mapsto> [], ''C.md'' \<mapsto> ''[[Missing]]'']\<rparr>"

definition graph_abc :: link_graph where
  "graph_abc =
     \<lparr>linkCache = [''A.md'' \<mapsto> [''B''], ''B.md'' \<mapsto> [], ''C.md'' \<mapsto> [''Missing'']],
      backlinksCache = [''B.md'' \<mapsto> [''A.md'']]\<rparr>"

text \<open>
  Instances of the parameters \<open>JSON.parse\<close> and \<open>JSON.stringify\<close> for the examples. No front
  matter of an example holds a value that starts with \<open>[\<close> or \<open>{\<close>, and no example searches
  the front matter, so the examples never call them.
\<close>

definition example_parse :: "string \<Rightarrow> unit json option" where
  "example_parse s = None"

definition example_stringify :: "unit frontmatter \<Rightarrow> string" where
  "example_stringify fm = []"

text \<open>The entries of \<open>graphSearch\<close> for the three documents of the example corpus.\<close>

definition entry_A :: "'n graph_result" where
  "entry_A = \<lparr>g_filename = ''A.md'', g_path = ''A.md'', outgoingLinks = [''B''],
      incomingLinks = [], tags = [], g_frontmatter = empty_object\<rparr>"

definition entry_B :: "'n graph_result" where
  "entry_B = \<lparr>g_filename = ''B.md'', g_path = ''B.md'', outgoingLinks = [],
      incomingLinks = [''A.md''], tags = [], g_frontmatter = empty_object\<rparr>"

definition entry_C :: "'n graph_result" where
  "entry_C = \<lparr>g_filename = ''C.md'', g_path = ''C.md'', outgoingLinks = [''Missing''],
      incomingLinks = [], tags = [], g_frontmatter = empty_object\<rparr>"

text \<open>A document is readable when \<open>readFile\<close> gives its text.\<close>

definition readable :: "(string \<Rightarrow> string option) \<Rightarrow> string \<Rightarrow> bool" where
  "readable read f = (read f \<noteq> None)"

text \<open>The reads of a vault in which every unreadable document has an empty body instead.\<close>

definition reads_empty :: "(string \<Rightarrow> string option) \<Rightarrow> string \<Rightarrow> string option" where
  "reads_empty read f = (case read f of None \<Rightarrow> Some [] | Some content \<Rightarrow> Some content)"

text \<open>The entry that the loop of \<open>graphSearch\<close> pushes for a file, if it pushes one.\<close>

definition graph_entry ::
  "(string \<Rightarrow> 'n json option) \<Rightarrow> (string \<Rightarrow> string option) \<Rightarrow> link_graph \<Rightarrow> int \<Rightarrow> string option \<Rightarrow> bool
     \<Rightarrow> string \<Rightarrow> 'n graph_result option"
where
  "graph_entry P read g maxDepth startFile includeOrphans file =
     (case read file of
        None \<Rightarrow> None
      | Some content \<Rightarrow>
          if (case startFile of None \<Rightarrow> False
              | Some sf \<Rightarrow> sf \<noteq> [] \<and> \<not> isConnected g file sf maxDepth)
          then None
          else if \<not> includeOrphans \<and> forward g file = [] \<and> backward g file = [] then None
          else Some \<lparr>g_filename = basename file, g_path = file,
                      outgoingLinks = forward g file, incomingLinks = backward g file,
                      tags = extractTags P content, g_frontmatter = extractFrontmatter P content\<rparr>)"

text \<open>
  A vault in which \<open>X.md\<close> cannot be read and \<open>A.md\<close> links to \<open>X\<close>, and the same vault
  without the file \<open>X.md\<close>.
\<close>

definition vault_unreadable :: vault where
  "vault_unreadable =
     \<lparr>root = Some [FileEnt ''A.md'', FileEnt ''X.md'', DirEnt ''sub'' [FileEnt ''X.md'']],
      readFile = [''A.md'' \<mapsto> ''[[X]]'', ''sub/X.md'' \<mapsto> []]\<rparr>"

definition vault_removed :: vault where
  "vault_removed =
     \<lparr>root = Some [FileEnt ''A.md'', DirEnt ''sub'' [FileEnt ''X.md'']],
      readFile = [''A.md'' \<mapsto> ''[[X]]'', ''sub/X.md'' \<mapsto> []]\<rparr>"



text \<open>
  A vault with a document named \<open>x.mdy.md\<close>, whose name holds \<open>.md\<close> before its extension,
  and a document that holds the text \<open>x.mdy\<close>.
\<close>

definition vault_mdy :: vault where
  "vault_mdy =
     \<lparr>root = Some [FileEnt ''other.md'', FileEnt ''x.mdy.md''],
      readFile = [''other.md'' \<mapsto> ''see x.mdy'', ''x.mdy.md'' \<mapsto> []]\<rparr>"



text \<open>
  A note whose front matter assigns a parsed object to \<open>__proto__\<close>, so that its \<open>tags\<close> are
  inherited from the prototype.
\<close>

definition note_inherited :: string where
  "note_inherited = ''---'' @ [CHR 0x0A] @ ''__proto__: {\"tags\": [1]}'' @ [CHR 0x0A] @ ''---''
     @ [CHR 0x0A] @ ''#x''"

section \<open>Substrings\<close>

lemma str_includes_iff: "str_includes h n \<longleftrightarrow> (\<exists>a b. h = a @ n @ b)"
proof (induction h)
  case Nil
  then show ?case by auto
next
  case (Cons c cs)
  show ?case
  proof
    assume "str_includes (c # cs) n"
    then consider "prefix n (c # cs)" | "str_includes cs n" by auto
    then show "\<exists>a b. c # cs = a @ n @ b"
    proof cases
      case 1
      then obtain b where "c # cs = n @ b" by (auto simp: prefix_def)
      then have "c # cs = [] @ n @ b" by simp
      then show ?thesis by blast
    next
      case 2
      with Cons.IH obtain a b where "cs = a @ n @ b" by blast
      then have "c # cs = (c # a) @ n @ b" by simp
      then show ?thesis by blast
    qed
  next
    assume "\<exists>a b. c # cs = a @ n @ b"
    then obtain a b where ab: "c # cs = a @ n @ b" by blast
    show "str_includes (c # cs) n"
    proof (cases a)
      case Nil
      with ab have "prefix n (c # cs)" by (auto simp: prefix_def)
      then show ?thesis by simp
    next
      case (Cons x a')
      with ab have "cs = a' @ n @ b" by simp
      with Cons.IH have "str_includes cs n" by blast
      then show ?thesis by simp
    qed
  qed
qed


section \<open>Link extraction\<close>

lemma link_at_Some:
  assumes "l \<noteq> []" "CHR '']'' \<notin> set l"
  shows "link_at (''[['' @ l @ '']]'' @ r) = Some (l, r)"
proof -
  have "takeWhile (\<lambda>c. c \<noteq> CHR '']'') (l @ '']]'' @ r) = l"
    using assms(2) by (induction l) auto
  moreover have "dropWhile (\<lambda>c. c \<noteq> CHR '']'') (l @ '']]'' @ r) = '']]'' @ r"
    using assms(2) by (induction l) auto
  ultimately show ?thesis
    using assms(1) by (simp add: link_at_def)
qed

lemma link_at_None: "\<not> prefix ''[['' s \<Longrightarrow> link_at s = None"
  by (simp add: link_at_def)

lemma extractLinks_link:
  assumes "l \<noteq> []" "CHR '']'' \<notin> set l"
  shows "extractLinks (''[['' @ l @ '']]'' @ r) = l # extractLinks r"
  using link_at_Some [OF assms, of r] by simp

lemma extractLinks_skip_plain:
  "plain t \<Longrightarrow> extractLinks (t @ s) = extractLinks s"
proof (induction t)
  case Nil
  then show ?case by simp
next
  case (Cons c t)
  from Cons.prems have p: "plain t"
    by (auto simp: plain_def split: if_splits)
  have "\<not> prefix ''[['' (c # t @ s)"
  proof
    assume a: "prefix ''[['' (c # t @ s)"
    then have c: "c = CHR ''[''" by simp
    show False
    proof (cases t)
      case Nil
      with c Cons.prems show False by (simp add: plain_def)
    next
      case (Cons d t')
      with a have "d = CHR ''[''" by auto
      with c Cons Cons.prems show False by (simp add: plain_def)
    qed
  qed
  then have "link_at (c # t @ s) = None" by (rule link_at_None)
  then show ?case using Cons.IH [OF p] by simp
qed

lemma extractLinks_no_links: "\<not> str_includes s ''[['' \<Longrightarrow> extractLinks s = []"
proof (induction s)
  case Nil
  then show ?case by simp
next
  case (Cons c s)
  then have "\<not> prefix ''[['' (c # s)" "\<not> str_includes s ''[[''" by auto
  then show ?case using Cons.IH by (simp add: link_at_None)
qed

lemma extractLinks_wiki_text:
  assumes "\<forall>(t, l) \<in> set segs. plain t \<and> l \<noteq> [] \<and> CHR '']'' \<notin> set l"
    and "\<not> str_includes tail ''[[''"
  shows "extractLinks (wiki_text segs tail) = map snd segs"
  using assms
proof (induction segs)
  case Nil
  then show ?case by (simp add: extractLinks_no_links)
next
  case (Cons seg segs)
  obtain t l where seg: "seg = (t, l)" by (cases seg)
  with Cons.prems have t: "plain t" and l: "l \<noteq> []" "CHR '']'' \<notin> set l" by auto
  have "extractLinks (wiki_text (seg # segs) tail) = extractLinks (''[['' @ l @ '']]'' @ wiki_text segs tail)"
    unfolding seg wiki_text.simps by (rule extractLinks_skip_plain [OF t])
  also have "\<dots> = l # extractLinks (wiki_text segs tail)"
    by (rule extractLinks_link [OF l])
  finally show ?case using Cons seg by simp
qed

lemma extractLinks_sound:
  "l \<in> set (extractLinks s) \<Longrightarrow> l \<noteq> [] \<and> CHR '']'' \<notin> set l \<and> str_includes s (''[['' @ l @ '']]'')"
proof (induction s rule: extractLinks.induct)
  case 1
  then show ?case by simp
next
  case (2 c cs)
  show ?case
  proof (cases "link_at (c # cs)")
    case None
    with 2 have "l \<noteq> [] \<and> CHR '']'' \<notin> set l \<and> str_includes cs (''[['' @ l @ '']]'')" by simp
    then show ?thesis by simp
  next
    case (Some tr)
    obtain t r where tr: "tr = (t, r)" by (cases tr)
    from Some tr have la: "link_at (c # cs) = Some (t, r)" by simp
    then have p: "prefix ''[['' (c # cs)" and tne: "t \<noteq> []"
      and t: "t = takeWhile (\<lambda>c. c \<noteq> CHR '']'') (drop 2 (c # cs))"
      and pr: "prefix '']]'' (dropWhile (\<lambda>c. c \<noteq> CHR '']'') (drop 2 (c # cs)))"
      and r: "r = drop 2 (dropWhile (\<lambda>c. c \<noteq> CHR '']'') (drop 2 (c # cs)))"
      by (auto simp: link_at_def Let_def split: if_splits)
    from p have "c # cs = ''[['' @ drop 2 (c # cs)"
      by (auto simp: prefix_def)
    also have "drop 2 (c # cs) = t @ dropWhile (\<lambda>c. c \<noteq> CHR '']'') (drop 2 (c # cs))"
      unfolding t by simp
    also have "dropWhile (\<lambda>c. c \<noteq> CHR '']'') (drop 2 (c # cs)) = '']]'' @ r"
      using pr r by (auto simp: prefix_def)
    finally have shape: "c # cs = ''[['' @ t @ '']]'' @ r" .
    have tnb: "CHR '']'' \<notin> set t"
      unfolding t by (auto dest: set_takeWhileD)
    from 2(3) la have "l = t \<or> l \<in> set (extractLinks r)" by auto
    then show ?thesis
    proof
      assume "l = t"
      moreover have "str_includes (c # cs) (''[['' @ t @ '']]'')"
        unfolding str_includes_iff using shape by (metis append.assoc append_Nil)
      ultimately show ?thesis using tne tnb by simp
    next
      assume "l \<in> set (extractLinks r)"
      with 2(2) [OF la refl] have ih: "l \<noteq> [] \<and> CHR '']'' \<notin> set l \<and> str_includes r (''[['' @ l @ '']]'')"
        by simp
      then obtain a b where "r = a @ (''[['' @ l @ '']]'') @ b"
        unfolding str_includes_iff by blast
      with shape have "c # cs = (''[['' @ t @ '']]'' @ a) @ (''[['' @ l @ '']]'') @ b" by simp
      then have "str_includes (c # cs) (''[['' @ l @ '']]'')"
        unfolding str_includes_iff by blast
      with ih show ?thesis by simp
    qed
  qed
qed


lemma link_at_shape:
  assumes "link_at s = Some (l, r)"
  shows "s = ''[['' @ l @ '']]'' @ r \<and> l \<noteq> [] \<and> CHR '']'' \<notin> set l"
proof -
  from assms have p: "prefix ''[['' s" and lne: "l \<noteq> []"
    and l: "l = takeWhile (\<lambda>c. c \<noteq> CHR '']'') (drop 2 s)"
    and pr: "prefix '']]'' (dropWhile (\<lambda>c. c \<noteq> CHR '']'') (drop 2 s))"
    and r: "r = drop 2 (dropWhile (\<lambda>c. c \<noteq> CHR '']'') (drop 2 s))"
    by (auto simp: link_at_def Let_def split: if_splits)
  from p have "s = ''[['' @ drop 2 s"
    by (auto simp: prefix_def)
  also have "drop 2 s = l @ dropWhile (\<lambda>c. c \<noteq> CHR '']'') (drop 2 s)"
    unfolding l by simp
  also have "dropWhile (\<lambda>c. c \<noteq> CHR '']'') (drop 2 s) = '']]'' @ r"
    using pr r by (auto simp: prefix_def)
  finally have "s = ''[['' @ l @ '']]'' @ r" .
  moreover have "CHR '']'' \<notin> set l"
    unfolding l by (auto dest: set_takeWhileD)
  ultimately show ?thesis using lne by simp
qed

lemma link_at_iff: "link_at s = Some (l, r) \<longleftrightarrow> link_occurs s [] l r"
  using link_at_shape [of s l r] link_at_Some [of l r]
  by (auto simp: link_occurs_def)

lemma link_at_None_iff: "link_at s = None \<longleftrightarrow> (\<forall>l r. \<not> link_occurs s [] l r)"
proof (cases "link_at s")
  case None
  then show ?thesis using link_at_iff [of s] by auto
next
  case (Some lr)
  then show ?thesis using link_at_iff [of s "fst lr" "snd lr"] by auto
qed

lemma link_occurs_Cons: "link_occurs cs t l r \<Longrightarrow> link_occurs (c # cs) (c # t) l r"
  by (simp add: link_occurs_def)

lemma link_occurs_tl:
  "link_occurs (c # cs) (d # t) l r \<Longrightarrow> link_occurs cs t l r"
  by (simp add: link_occurs_def)

lemma extractLinks_leftmost:
  assumes "link_occurs body t l r"
    and "\<And>t' l' r'. link_occurs body t' l' r' \<Longrightarrow> length t \<le> length t'"
  shows "extractLinks body = l # extractLinks r"
  using assms
proof (induction t arbitrary: body)
  case Nil
  then have "link_at body = Some (l, r)" by (simp add: link_at_iff)
  moreover from Nil.prems(1) have "body \<noteq> []" by (simp add: link_occurs_def)
  ultimately show ?case by (cases body) simp_all
next
  case (Cons c t)
  from Cons.prems(1) obtain cs where body: "body = c # cs"
    by (auto simp: link_occurs_def)
  have "link_at body = None"
  proof (rule ccontr)
    assume "link_at body \<noteq> None"
    then obtain l' r' where "link_at body = Some (l', r')" by auto
    then have "link_occurs body [] l' r'" by (simp add: link_at_iff)
    from Cons.prems(2) [OF this] show False by simp
  qed
  with body have 1: "extractLinks body = extractLinks cs" by simp
  from Cons.prems(1) body have 2: "link_occurs cs t l r" by (auto dest: link_occurs_tl)
  have 3: "length t \<le> length t'" if "link_occurs cs t' l' r'" for t' l' r'
    using Cons.prems(2) [OF link_occurs_Cons [OF that, of c, folded body]] by simp
  from Cons.IH [OF 2 3] 1 show ?case by simp
qed

lemma extractLinks_no_occurrence:
  "(\<And>t l r. \<not> link_occurs body t l r) \<Longrightarrow> extractLinks body = []"
proof (induction body)
  case Nil
  then show ?case by simp
next
  case (Cons c cs)
  from Cons.prems have "link_at (c # cs) = None"
    by (simp add: link_at_None_iff)
  moreover have "\<not> link_occurs cs t l r" for t l r
    using Cons.prems [of "c # t" l r] by (auto dest: link_occurs_Cons)
  ultimately show ?case using Cons.IH by simp
qed

lemma leftmost_occurrence:
  assumes "link_occurs body t l r"
  shows "\<exists>t0 l0 r0. link_occurs body t0 l0 r0
    \<and> (\<forall>t' l' r'. link_occurs body t' l' r' \<longrightarrow> length t0 \<le> length t')"
proof -
  let ?Q = "\<lambda>n. \<exists>t l r. link_occurs body t l r \<and> length t = n"
  from assms have "?Q (length t)" by blast
  then have "?Q (LEAST n. ?Q n)" by (rule LeastI)
  then obtain t0 l0 r0 where o: "link_occurs body t0 l0 r0" and n: "length t0 = (LEAST n. ?Q n)"
    by blast
  have "length t0 \<le> length t'" if "link_occurs body t' l' r'" for t' l' r'
  proof -
    from that have "?Q (length t')" by blast
    then have "(LEAST n. ?Q n) \<le> length t'" by (rule Least_le)
    with n show ?thesis by simp
  qed
  with o show ?thesis by blast
qed

lemma extractLinks_empty_iff:
  "extractLinks body = [] \<longleftrightarrow> (\<forall>t l r. \<not> link_occurs body t l r)"
proof
  assume e: "extractLinks body = []"
  show "\<forall>t l r. \<not> link_occurs body t l r"
  proof (intro allI notI)
    fix t l r assume "link_occurs body t l r"
    from leftmost_occurrence [OF this] obtain t0 l0 r0 where "link_occurs body t0 l0 r0"
      and "\<And>t' l' r'. link_occurs body t' l' r' \<Longrightarrow> length t0 \<le> length t'"
      by blast
    then have "extractLinks body = l0 # extractLinks r0" by (rule extractLinks_leftmost)
    with e show False by simp
  qed
next
  assume "\<forall>t l r. \<not> link_occurs body t l r"
  then show "extractLinks body = []" by (intro extractLinks_no_occurrence) blast
qed

text \<open>The two laws determine the extraction: a function that obeys them is \<open>extractLinks\<close>.\<close>

lemma extractLinks_determined:
  assumes none: "\<And>body. (\<forall>t l r. \<not> link_occurs body t l r) \<Longrightarrow> f body = []"
    and first: "\<And>body t l r. link_occurs body t l r \<Longrightarrow>
        (\<forall>t' l' r'. link_occurs body t' l' r' \<longrightarrow> length t \<le> length t') \<Longrightarrow> f body = l # f r"
  shows "f body = extractLinks body"
proof (induction "length body" arbitrary: body rule: less_induct)
  case less
  show ?case
  proof (cases "\<forall>t l r. \<not> link_occurs body t l r")
    case True
    then show ?thesis using none [OF True] extractLinks_empty_iff [of body] by simp
  next
    case False
    then obtain t l r where "link_occurs body t l r" by blast
    from leftmost_occurrence [OF this] obtain t0 l0 r0 where o: "link_occurs body t0 l0 r0"
      and m: "\<And>t' l' r'. link_occurs body t' l' r' \<Longrightarrow> length t0 \<le> length t'"
      by blast
    from o have "length r0 < length body" by (simp add: link_occurs_def)
    then have "f r0 = extractLinks r0" by (rule less)
    moreover from m have "\<forall>t' l' r'. link_occurs body t' l' r' \<longrightarrow> length t0 \<le> length t'"
      by blast
    from first [OF o this] have "f body = l0 # f r0" .
    moreover have "extractLinks body = l0 # extractLinks r0"
      using o m by (rule extractLinks_leftmost)
    ultimately show ?thesis by simp
  qed
qed

lemma occurrence_position:
  "link_occurs body t l r \<Longrightarrow> link_at (drop (length t) body) = Some (l, r)"
  by (simp add: link_at_iff) (simp add: link_occurs_def)

text \<open>
  C4, as amended. For every document body: extraction returns nothing exactly when no link
  occurs in the body; and when the leftmost link of the body is \<open>[[l]]\<close>, with the text \<open>r\<close>
  after it, extraction returns \<open>l\<close> followed by what it returns for \<open>r\<close>. So there is one
  entry per link, from left to right, a repeated link is repeated, and an entry is the
  whole text between the brackets: nothing is cut at a \<open>|\<close>. Every entry is a non-empty
  text without a closing bracket that stands between double brackets in the body, and a
  body made of plain text pieces and wiki links gives the references of these links.
\<close>

theorem extractLinks_verbatim:
  "(extractLinks body = [] \<longleftrightarrow> (\<forall>t l r. \<not> link_occurs body t l r))
   \<and> (link_occurs body t l r
        \<and> (\<forall>t' l' r'. link_occurs body t' l' r' \<longrightarrow> length t \<le> length t')
        \<longrightarrow> extractLinks body = l # extractLinks r)
   \<and> (\<forall>l \<in> set (extractLinks body).
        l \<noteq> [] \<and> CHR '']'' \<notin> set l \<and> str_includes body (''[['' @ l @ '']]''))
   \<and> ((\<forall>(t, l) \<in> set segs. plain t \<and> l \<noteq> [] \<and> CHR '']'' \<notin> set l) \<and> \<not> str_includes tail ''[[''
        \<longrightarrow> extractLinks (wiki_text segs tail) = map snd segs)"
proof (intro conjI)
  show "extractLinks body = [] \<longleftrightarrow> (\<forall>t l r. \<not> link_occurs body t l r)"
    by (rule extractLinks_empty_iff)
  show "link_occurs body t l r
        \<and> (\<forall>t' l' r'. link_occurs body t' l' r' \<longrightarrow> length t \<le> length t')
        \<longrightarrow> extractLinks body = l # extractLinks r"
    using extractLinks_leftmost [of body t l r] by blast
  show "\<forall>l \<in> set (extractLinks body).
        l \<noteq> [] \<and> CHR '']'' \<notin> set l \<and> str_includes body (''[['' @ l @ '']]'')"
    using extractLinks_sound [of _ body] by blast
  show "(\<forall>(t, l) \<in> set segs. plain t \<and> l \<noteq> [] \<and> CHR '']'' \<notin> set l) \<and> \<not> str_includes tail ''[[''
        \<longrightarrow> extractLinks (wiki_text segs tail) = map snd segs"
    using extractLinks_wiki_text [of segs tail] by blast
qed

theorem extractLinks_verbatim_witness:
  "link_occurs ''[[a]b]] [[c|d]]'' ''[[a]b]] '' ''c|d'' []
   \<and> list_all (\<lambda>i. link_at (drop i ''[[a]b]] [[c|d]]'') = None) [0 ..< length ''[[a]b]] '']
   \<and> extractLinks ''[[a]b]] [[c|d]]'' = [''c|d'']
   \<and> extractLinks ''no link'' = []
   \<and> plain ''see '' \<and> plain '' and [x](y) '' \<and> plain [] \<and> \<not> str_includes '' end'' ''[[''
   \<and> extractLinks ''see [[B|alias]] and [x](y) [[C]][[C]] end'' = [''B|alias'', ''C'', ''C'']
   \<and> str_includes ''see [[B|alias]] and [x](y) [[C]][[C]] end'' ''[[B|alias]]''
   \<and> str_includes ''see [[B|alias]] and [x](y) [[C]][[C]] end'' ''[[C]]''"
proof -
  let ?body = "''[[a]b]] [[c|d]]''"
  have o: "link_occurs ?body ''[[a]b]] '' ''c|d'' []"
    by (simp add: link_occurs_def)
  have n: "list_all (\<lambda>i. link_at (drop i ?body) = None) [0 ..< length ''[[a]b]] '']"
    by code_simp
  have m: "\<forall>t' l' r'. link_occurs ?body t' l' r' \<longrightarrow> length ''[[a]b]] '' \<le> length t'"
  proof (intro allI impI, rule ccontr)
    fix t' l' r'
    assume t': "link_occurs ?body t' l' r'" and "\<not> length ''[[a]b]] '' \<le> length t'"
    then have "length t' \<in> set [0 ..< length ''[[a]b]] '']"
      unfolding set_upt atLeastLessThan_iff by (simp only: le0 not_le simp_thms)
    with n have "link_at (drop (length t') ?body) = None"
      unfolding list_all_iff by blast
    with occurrence_position [OF t'] show False by simp
  qed
  have e0: "\<forall>t l r. \<not> link_occurs [] t l r"
    by (simp add: link_occurs_def)
  have e: "extractLinks ?body = [''c|d'']"
    using extractLinks_verbatim [of ?body "''[[a]b]] ''" "''c|d''" "[]" "[]" "[]"] o m
      extractLinks_verbatim [of "[]" "[]" "[]" "[]" "[]" "[]"] e0
    by simp
  have q: "extractLinks ''no link'' = []" by code_simp
  have h: "plain ''see '' \<and> plain '' and [x](y) '' \<and> plain [] \<and> \<not> str_includes '' end'' ''[[''"
    by (simp add: plain_def)
  have w: "extractLinks ''see [[B|alias]] and [x](y) [[C]][[C]] end'' = [''B|alias'', ''C'', ''C'']"
    using extractLinks_verbatim
      [of "[]" "[]" "[]" "[]" "[(''see '', ''B|alias''), ('' and [x](y) '', ''C''), ([], ''C'')]" "'' end''"] h
    by simp
  have s: "str_includes ''see [[B|alias]] and [x](y) [[C]][[C]] end'' ''[[B|alias]]''"
    "str_includes ''see [[B|alias]] and [x](y) [[C]][[C]] end'' ''[[C]]''"
    by code_simp+
  from o n e q h w s show ?thesis by (intro conjI) simp_all
qed


text \<open>
  C4 as stated fails: for the body \<open>[[B|alias]]\<close> the claim gives the reference \<open>B\<close>, and
  the code returns the text with the alias.
\<close>

theorem extractLinks_alias_counterexample:
  "extractLinks ''[[B|alias]]'' = [''B|alias''] \<and> extractLinks ''[[B|alias]]'' \<noteq> [''B'']"
  by code_simp

section \<open>The link graph is a transpose\<close>

lemma set_set_add: "set (set_add s x) = insert x (set s)"
  by (auto simp: set_add_def)

lemma set_new_Set_aux: "set (foldl set_add s xs) = set s \<union> set xs"
  by (induction xs arbitrary: s) (auto simp: set_set_add)

lemma set_new_Set: "set (new_Set xs) = set xs"
  by (simp add: new_Set_def set_new_Set_aux)

lemma set_forward: "set (forward g f) = get_set (linkCache g) f"
  by (simp add: forward_def get_set_def split: option.splits)

lemma set_backward: "set (backward g f) = get_set (backlinksCache g) f"
  by (simp add: backward_def get_set_def split: option.splits)

lemma add_backlinks_set:
  "get_set (add_backlinks files file links bl) b =
     get_set bl b \<union> (if b \<noteq> [] \<and> (\<exists>l \<in> set links. linkedFile files l = Some b) then {file} else {})"
proof (induction links arbitrary: bl)
  case Nil
  then show ?case by simp
next
  case (Cons link links)
  show ?case
  proof (cases "linkedFile files link")
    case None
    then show ?thesis using Cons.IH [of bl] by auto
  next
    case (Some lf)
    show ?thesis
    proof (cases "lf = []")
      case True
      with Some show ?thesis using Cons.IH [of bl] by auto
    next
      case False
      let ?bl = "bl(lf \<mapsto> set_add (case bl lf of None \<Rightarrow> [] | Some s \<Rightarrow> s) file)"
      have step: "get_set ?bl b = get_set bl b \<union> (if b = lf then {file} else {})"
        by (auto simp: get_set_def set_set_add split: option.splits)
      from Some False have "get_set (add_backlinks files file (link # links) bl) b = get_set (add_backlinks files file links ?bl) b"
        by simp
      also have "\<dots> = get_set ?bl b \<union> (if b \<noteq> [] \<and> (\<exists>l \<in> set links. linkedFile files l = Some b) then {file} else {})"
        by (rule Cons.IH)
      finally show ?thesis
        using Some False by (auto simp: step)
    qed
  qed
qed

lemma build_loop_backward:
  "get_set (backlinksCache (build_loop files read todo g)) b =
     get_set (backlinksCache g) b \<union>
     {a \<in> set todo. b \<noteq> [] \<and> (\<exists>c. read a = Some c \<and> (\<exists>l \<in> set (extractLinks c). linkedFile files l = Some b))}"
proof (induction todo arbitrary: g)
  case Nil
  then show ?case by simp
next
  case (Cons f todo)
  show ?case
  proof (cases "read f")
    case None
    then show ?thesis using Cons.IH [of g] by auto
  next
    case (Some c)
    then show ?thesis
      by (simp add: Cons.IH add_backlinks_set Let_def) auto
  qed
qed

lemma build_loop_forward:
  "get_set (linkCache (build_loop files read todo g)) a =
     (if a \<in> set todo
      then (case read a of None \<Rightarrow> get_set (linkCache g) a | Some c \<Rightarrow> set (extractLinks c))
      else get_set (linkCache g) a)"
proof (induction todo arbitrary: g)
  case Nil
  then show ?case by simp
next
  case (Cons f todo)
  show ?case
  proof (cases "read f")
    case None
    then show ?thesis using Cons.IH [of g] by auto
  next
    case (Some c)
    then show ?thesis
      by (simp add: Cons.IH Let_def) (auto simp: get_set_def set_new_Set split: option.splits)
  qed
qed

lemma linkedFile_nonempty: "linkedFile files l = Some b \<Longrightarrow> l \<noteq> [] \<Longrightarrow> b \<noteq> []"
proof
  assume a: "linkedFile files l = Some b" "l \<noteq> []" "b = []"
  then have "matches_link l []"
    by (auto simp: linkedFile_def find_Some_iff)
  with a(2) show False
    by (auto simp: matches_link_def basename_ext_def basename_def)
qed

lemma extractLinks_nonempty: "l \<in> set (extractLinks s) \<Longrightarrow> l \<noteq> []"
proof (induction s rule: extractLinks.induct)
  case 1
  then show ?case by simp
next
  case (2 c cs)
  then show ?case
    by (auto simp: link_at_def Let_def split: option.splits if_splits)
qed

lemma backlinks_transpose_files:
  fixes files read
  defines "g \<equiv> build_loop files read files \<lparr>linkCache = Map.empty, backlinksCache = Map.empty\<rparr>"
  shows "a \<in> set (backward g b) \<longleftrightarrow> (\<exists>link \<in> set (forward g a). linkedFile files link = Some b)"
proof -
  have fw: "set (forward g a) =
      (if a \<in> set files then (case read a of None \<Rightarrow> {} | Some c \<Rightarrow> set (extractLinks c)) else {})"
    unfolding set_forward g_def build_loop_forward by (simp add: get_set_def split: option.splits)
  have bw: "set (backward g b) = {a \<in> set files. b \<noteq> [] \<and> (\<exists>c. read a = Some c \<and> (\<exists>l \<in> set (extractLinks c). linkedFile files l = Some b))}"
    unfolding set_backward g_def build_loop_backward by (simp add: get_set_def)
  show ?thesis
    unfolding fw bw
    by (auto dest: linkedFile_nonempty extractLinks_nonempty split: option.splits)
qed


lemma example_files: "getAllMarkdownFiles vault_abc = Inr [''A.md'', ''B.md'', ''C.md'']"
  by code_simp

lemma example_links:
  "extractLinks ''[[B]]'' = [''B'']" "extractLinks [] = []"
  "extractLinks ''[[Missing]]'' = [''Missing'']"
  by code_simp+

lemma example_linkedFile:
  "linkedFile [''A.md'', ''B.md'', ''C.md''] ''B'' = Some ''B.md''"
  "linkedFile [''A.md'', ''B.md'', ''C.md''] ''Missing'' = None"
  by code_simp+

lemma example_graph: "buildLinkGraph vault_abc = Inr graph_abc"
  unfolding buildLinkGraph_def example_files
  by (simp add: vault_abc_def graph_abc_def Let_def new_Set_def set_add_def example_linkedFile
        del: extractLinks.simps add: example_links)

text \<open>
  C2. After \<open>buildLinkGraph\<close>, \<open>a\<close> is in the backward set of \<open>b\<close> exactly when a link
  reference in the forward set of \<open>a\<close> resolves to \<open>b\<close>; a document whose references all
  fail to resolve is in no backward set.
\<close>

theorem backlinks_transpose:
  assumes "getAllMarkdownFiles v = Inr files" and "buildLinkGraph v = Inr g"
  shows "(a \<in> set (backward g b) \<longleftrightarrow> (\<exists>link \<in> set (forward g a). linkedFile files link = Some b))
    \<and> ((\<forall>link \<in> set (forward g a). linkedFile files link = None) \<longrightarrow> a \<notin> set (backward g b))"
proof -
  from assms have "g = build_loop files (readFile v) files \<lparr>linkCache = Map.empty, backlinksCache = Map.empty\<rparr>"
    by (simp add: buildLinkGraph_def)
  then have "a \<in> set (backward g b) \<longleftrightarrow> (\<exists>link \<in> set (forward g a). linkedFile files link = Some b)"
    using backlinks_transpose_files [of a files "readFile v" b] by simp
  then show ?thesis by auto
qed

theorem backlinks_transpose_witness:
  "getAllMarkdownFiles vault_abc = Inr [''A.md'', ''B.md'', ''C.md'']
   \<and> buildLinkGraph vault_abc = Inr graph_abc
   \<and> forward graph_abc ''A.md'' = [''B'']
   \<and> linkedFile [''A.md'', ''B.md'', ''C.md''] ''B'' = Some ''B.md''
   \<and> ''A.md'' \<in> set (backward graph_abc ''B.md'')
   \<and> forward graph_abc ''C.md'' = [''Missing'']
   \<and> linkedFile [''A.md'', ''B.md'', ''C.md''] ''Missing'' = None
   \<and> ''C.md'' \<notin> set (backward graph_abc ''B.md'')"
  using backlinks_transpose [OF example_files example_graph, of "''A.md''" "''B.md''"]
    backlinks_transpose [OF example_files example_graph, of "''C.md''" "''B.md''"]
  by (simp add: example_files example_graph forward_def backward_def graph_abc_def example_linkedFile)

section \<open>Connectivity\<close>

text \<open>
  C9. With depth 0, \<open>isConnected\<close> holds between a document and itself and fails between
  two different documents, whatever the graph.
\<close>

theorem isConnected_depth_zero:
  "isConnected g a a 0 \<and> (a \<noteq> b \<longrightarrow> \<not> isConnected g a b 0)"
  by (simp add: isConnected_def)

theorem isConnected_depth_zero_witness:
  "''A.md'' \<noteq> ''B.md'' \<and> isConnected graph_abc ''A.md'' ''A.md'' 0
   \<and> \<not> isConnected graph_abc ''A.md'' ''B.md'' 0"
  using isConnected_depth_zero [of graph_abc "''A.md''" "''B.md''"] by simp

section \<open>Graph search on the example corpus\<close>

lemma example_read:
  "readFile vault_abc ''A.md'' = Some ''[[B]]''"
  "readFile vault_abc ''B.md'' = Some []"
  "readFile vault_abc ''C.md'' = Some ''[[Missing]]''"
  by (simp_all add: vault_abc_def)

lemma example_adjacency:
  "forward graph_abc ''A.md'' = [''B'']" "forward graph_abc ''B.md'' = []"
  "forward graph_abc ''C.md'' = [''Missing'']" "forward graph_abc ''B'' = []"
  "backward graph_abc ''A.md'' = []" "backward graph_abc ''B.md'' = [''A.md'']"
  "backward graph_abc ''C.md'' = []" "backward graph_abc ''B'' = []"
  by (simp_all add: forward_def backward_def graph_abc_def)

lemma example_meta:
  "extractFrontmatter P ''[[B]]'' = empty_object" "extractTags P ''[[B]]'' = []"
  "extractFrontmatter P [] = empty_object" "extractTags P [] = []"
  "extractFrontmatter P ''[[Missing]]'' = empty_object" "extractTags P ''[[Missing]]'' = []"
  by (simp_all add: extractFrontmatter_def extractTags_def get_tags_def empty_object_def)

lemma example_basename:
  "basename ''A.md'' = ''A.md''" "basename ''B.md'' = ''B.md''" "basename ''C.md'' = ''C.md''"
  by code_simp+

lemma example_connected:
  "\<not> isConnected graph_abc ''A.md'' ''B.md'' 1" "isConnected graph_abc ''B.md'' ''A.md'' 1"
  "\<not> isConnected graph_abc ''C.md'' ''B.md'' 1" "isConnected graph_abc ''B.md'' ''B.md'' 1"
  by (simp_all add: isConnected_def example_adjacency)

lemma example_graph_loop:
  "graph_loop P (readFile vault_abc) graph_abc d None io [''A.md'', ''B.md'', ''C.md''] []
     = [entry_A, entry_B, entry_C]"
  apply (simp add: example_read example_meta example_adjacency example_basename Let_def)
  apply (simp add: entry_A_def entry_B_def entry_C_def)
  done

lemma example_graphSearch:
  "graphSearch P vault_abc d None io = Inr [entry_A, entry_B, entry_C]"
  by (simp add: graphSearch_def example_graph example_files example_graph_loop
        del: graph_loop.simps)

lemma example_graphSearch_seed:
  "graphSearch P vault_abc 1 (Some ''B.md'') True = Inr [entry_B]"
  "graphSearch P vault_abc 1 (Some ''A.md'') True = Inr [entry_A, entry_B]"
  by (simp_all add: graphSearch_def example_graph example_files example_read example_meta
        example_adjacency example_basename example_connected Let_def isConnected_def
        entry_A_def entry_B_def entry_C_def)

text \<open>
  C1, as amended. On the example corpus \<open>graphSearch\<close> without a start file returns the
  three documents, with and without \<open>includeOrphans\<close>: the outgoing links of \<open>C.md\<close> hold the
  reference \<open>Missing\<close>, which names no document, and so \<open>C.md\<close> is not dropped as an orphan.
\<close>

theorem graphSearch_example:
  "graphSearch P vault_abc maxDepth None False = Inr [entry_A, entry_B, entry_C]
   \<and> graphSearch P vault_abc maxDepth None True = Inr [entry_A, entry_B, entry_C]"
  by (simp add: example_graphSearch)

text \<open>
  C1 as stated fails: without \<open>includeOrphans\<close> the result is not the two documents \<open>A.md\<close>
  and \<open>B.md\<close>; it holds \<open>C.md\<close> too.
\<close>

theorem graphSearch_orphan_counterexample:
  "graphSearch example_parse vault_abc 2 None False = Inr [entry_A, entry_B, entry_C]
   \<and> map g_path [entry_A, entry_B, entry_C :: unit graph_result] = [''A.md'', ''B.md'', ''C.md'']
   \<and> graphSearch example_parse vault_abc 2 None False \<noteq> Inr [entry_A, entry_B]"
  by (simp add: example_graphSearch entry_A_def entry_B_def entry_C_def)

section \<open>Connectivity along links\<close>

text \<open>The loop finds a file that is in the queue, and so a backlink is always followed.\<close>

lemma bfs_finds: "(a, k) \<in> set queue \<Longrightarrow> bfs fw bw a d visited queue"
  by (induction fw bw a d visited queue rule: bfs.induct) auto

lemma isConnected_backlink:
  assumes "a \<in> set (backward g b)" "0 < d"
  shows "isConnected g b a d"
proof (cases "b = a")
  case True
  then show ?thesis by (simp add: isConnected_def)
next
  case False
  have "(a, 1::int) \<in> set ([] @ map (\<lambda>link. (link, 0 + 1)) (forward g b)
                         @ map (\<lambda>backlink. (backlink, 0 + 1)) (backward g b))"
    using assms(1) by (auto simp: image_iff)
  then have "bfs (forward g) (backward g) a d ([] @ [b])
               ([] @ map (\<lambda>link. (link, 0 + 1)) (forward g b)
                   @ map (\<lambda>backlink. (backlink, 0 + 1)) (backward g b))"
    by (rule bfs_finds)
  with False assms(2) show ?thesis
    by (simp add: isConnected_def)
qed

text \<open>
  In any vault, a document \<open>a\<close> with a link that resolves to \<open>b\<close> is reached from \<open>b\<close>
  within any positive depth.
\<close>

lemma isConnected_to_linking_document:
  assumes "getAllMarkdownFiles v = Inr files" and "buildLinkGraph v = Inr g"
    and "a \<in> set files" and "readFile v a = Some content"
    and "link \<in> set (extractLinks content)" and "linkedFile files link = Some b"
    and "0 < d"
  shows "isConnected g b a d"
proof -
  from assms(1,2) have g: "g = build_loop files (readFile v) files
      \<lparr>linkCache = Map.empty, backlinksCache = Map.empty\<rparr>"
    by (simp add: buildLinkGraph_def)
  have "set (forward g a) = set (extractLinks content)"
    unfolding g set_forward build_loop_forward using assms(3,4) by simp
  with assms(5,6) have "\<exists>link \<in> set (forward g a). linkedFile files link = Some b"
    by blast
  then have "a \<in> set (backward g b)"
    unfolding g using backlinks_transpose_files [of a files "readFile v" b] by simp
  then show ?thesis using assms(7) by (rule isConnected_backlink)
qed

text \<open>
  C3 fails on the code. \<open>A.md\<close> holds a link that resolves to \<open>B.md\<close>. The backward
  edge is followed, but the forward set of \<open>A.md\<close> holds the reference \<open>B\<close>, not the path
  \<open>B.md\<close>, so the search from \<open>A.md\<close> never meets \<open>B.md\<close>; \<open>graphSearch\<close> from the start file
  \<open>B.md\<close> with depth 1 then drops \<open>A.md\<close>.
\<close>

theorem isConnected_forward_edge_lost:
  "buildLinkGraph vault_abc = Inr graph_abc
   \<and> forward graph_abc ''A.md'' = [''B'']
   \<and> linkedFile [''A.md'', ''B.md'', ''C.md''] ''B'' = Some ''B.md''
   \<and> isConnected graph_abc ''B.md'' ''A.md'' 1
   \<and> \<not> isConnected graph_abc ''A.md'' ''B.md'' 1
   \<and> graphSearch example_parse vault_abc 1 (Some ''A.md'') True = Inr [entry_A, entry_B]
   \<and> graphSearch example_parse vault_abc 1 (Some ''B.md'') True = Inr [entry_B]"
  by (simp add: example_graph example_adjacency example_linkedFile example_connected
        example_graphSearch_seed)

section \<open>Content search and read failures\<close>


lemma search_loop_full:
  "int (length rs) \<ge> m \<Longrightarrow> search_loop P S read q m ctx t inc files rs = rs"
  by (cases files) simp_all

lemma search_loop_readable:
  "search_loop P S read q m ctx t inc (filter (readable read) files) rs
     = search_loop P S read q m ctx t inc files rs"
proof (induction files arbitrary: rs)
  case Nil
  then show ?case by simp
next
  case (Cons f files)
  show ?case
  proof (cases "int (length rs) \<ge> m")
    case True
    then show ?thesis by (simp add: search_loop_full)
  next
    case False
    have r: "readable read f \<longleftrightarrow> read f \<noteq> None"
      by (simp add: readable_def)
    from False show ?thesis
      by (cases "read f") (auto simp: Cons.IH r split: sum.splits option.splits)
  qed
qed

lemma map_filter_skip:
  "(\<And>x. \<not> p x \<Longrightarrow> f x = None) \<Longrightarrow> List.map_filter f (filter p xs) = List.map_filter f xs"
  by (induction xs) (auto simp: List.map_filter_simps split: option.splits)

lemma fuzzy_entries_readable:
  "List.map_filter (fuzzy_entry P read q) (filter (readable read) files)
     = List.map_filter (fuzzy_entry P read q) files"
  by (rule map_filter_skip) (simp add: fuzzy_entry_def readable_def)





lemma graph_loop_entries:
  "graph_loop P read g d s io files rs = rs @ List.map_filter (graph_entry P read g d s io) files"
  by (induction files arbitrary: rs)
    (auto simp: List.map_filter_simps graph_entry_def Let_def split: option.splits)

lemma graph_entry_cong:
  assumes "forward g = forward g'" "backward g = backward g'"
  shows "graph_entry P read g d s io f = graph_entry P read g' d s io f"
  using assms by (simp add: graph_entry_def isConnected_def split: option.splits)

lemma graph_entry_path: "graph_entry P read g d s io f = Some e \<Longrightarrow> g_path e = f"
  by (auto simp: graph_entry_def split: option.splits if_splits)

lemma graph_entry_reads_empty:
  "graph_entry P read g d s io f =
     (if readable read f then graph_entry P (reads_empty read) g d s io f else None)"
  by (auto simp: graph_entry_def readable_def reads_empty_def split: option.splits)

lemma graph_entries_reads_empty:
  "List.map_filter (graph_entry P read g d s io) files =
     filter (\<lambda>r. readable read (g_path r))
       (List.map_filter (graph_entry P (reads_empty read) g d s io) files)"
proof (induction files)
  case Nil
  then show ?case by (simp add: List.map_filter_simps)
next
  case (Cons f files)
  show ?case
  proof (cases "graph_entry P (reads_empty read) g d s io f")
    case None
    then show ?thesis
      using Cons.IH graph_entry_reads_empty [of P read g d s io f]
      by (simp add: List.map_filter_simps)
  next
    case (Some e)
    then have "g_path e = f" by (rule graph_entry_path)
    then show ?thesis
      using Some Cons.IH graph_entry_reads_empty [of P read g d s io f]
      by (simp add: List.map_filter_simps)
  qed
qed

lemma build_loop_reads_empty:
  assumes "forward g = forward g'" "backlinksCache g = backlinksCache g'"
    and "\<And>f. \<not> readable read f \<Longrightarrow> forward g f = []"
  shows "forward (build_loop files read todo g) = forward (build_loop files (reads_empty read) todo g')
    \<and> backlinksCache (build_loop files read todo g)
        = backlinksCache (build_loop files (reads_empty read) todo g')"
  using assms
proof (induction todo arbitrary: g g')
  case Nil
  then show ?case by simp
next
  case (Cons f todo)
  show ?case
  proof (cases "read f")
    case None
    let ?g' = "\<lparr>linkCache = (linkCache g')(f \<mapsto> new_Set (extractLinks [])),
                  backlinksCache = add_backlinks files f (extractLinks []) (backlinksCache g')\<rparr>"
    from None have nr: "\<not> readable read f" by (simp add: readable_def)
    have 1: "forward g = forward ?g'"
    proof
      fix x show "forward g x = forward ?g' x"
        using Cons.prems(1) Cons.prems(3) [OF nr]
        by (cases "x = f") (simp_all add: forward_def new_Set_def fun_eq_iff)
    qed
    have 2: "backlinksCache g = backlinksCache ?g'"
      using Cons.prems(2) by simp
    from Cons.IH [OF 1 2 Cons.prems(3)] None show ?thesis
      by (simp add: reads_empty_def Let_def)
  next
    case (Some content)
    let ?h = "\<lparr>linkCache = (linkCache g)(f \<mapsto> new_Set (extractLinks content)),
                 backlinksCache = add_backlinks files f (extractLinks content) (backlinksCache g)\<rparr>"
    let ?h' = "\<lparr>linkCache = (linkCache g')(f \<mapsto> new_Set (extractLinks content)),
                  backlinksCache = add_backlinks files f (extractLinks content) (backlinksCache g')\<rparr>"
    from Some have r: "readable read f" by (simp add: readable_def)
    have 1: "forward ?h = forward ?h'"
    proof
      fix x show "forward ?h x = forward ?h' x"
        using Cons.prems(1) by (cases "x = f") (simp_all add: forward_def fun_eq_iff)
    qed
    have 2: "backlinksCache ?h = backlinksCache ?h'"
      using Cons.prems(2) by simp
    have 3: "forward ?h x = []" if "\<not> readable read x" for x
      using that r Cons.prems(3) [OF that] by (cases "x = f") (auto simp: forward_def)
    from Cons.IH [OF 1 2 3] Some show ?thesis
      by (simp add: reads_empty_def Let_def)
  qed
qed

lemma walk_ignores_readFile: "getAllMarkdownFiles (v\<lparr>readFile := r\<rparr>) = getAllMarkdownFiles v"
  by (simp add: getAllMarkdownFiles_def)

lemma graphSearch_reads_empty:
  "graphSearch P v d s io =
     map_sum id (filter (\<lambda>r. readable (readFile v) (g_path r)))
       (graphSearch P (v\<lparr>readFile := reads_empty (readFile v)\<rparr>) d s io)"
proof (cases "getAllMarkdownFiles v")
  case (Inl e)
  then show ?thesis
    by (simp add: graphSearch_def buildLinkGraph_def walk_ignores_readFile)
next
  case (Inr files)
  let ?e = "\<lparr>linkCache = Map.empty, backlinksCache = Map.empty\<rparr>"
  let ?g = "build_loop files (readFile v) files ?e"
  let ?g' = "build_loop files (reads_empty (readFile v)) files ?e"
  have "forward ?g = forward ?g' \<and> backlinksCache ?g = backlinksCache ?g'"
    by (rule build_loop_reads_empty) (simp_all add: forward_def)
  then have fw: "forward ?g = forward ?g'" and bw: "backward ?g = backward ?g'"
    by (auto simp: backward_def fun_eq_iff)
  have "List.map_filter (graph_entry P (readFile v) ?g d s io) files =
     filter (\<lambda>r. readable (readFile v) (g_path r))
       (List.map_filter (graph_entry P (reads_empty (readFile v)) ?g d s io) files)"
    by (rule graph_entries_reads_empty)
  also have "List.map_filter (graph_entry P (reads_empty (readFile v)) ?g d s io) files
    = List.map_filter (graph_entry P (reads_empty (readFile v)) ?g' d s io) files"
  proof -
    have "graph_entry P (reads_empty (readFile v)) ?g d s io
      = graph_entry P (reads_empty (readFile v)) ?g' d s io"
      by (rule ext) (rule graph_entry_cong [OF fw bw])
    then show ?thesis by simp
  qed
  finally show ?thesis
    using Inr
    by (simp add: graphSearch_def buildLinkGraph_def walk_ignores_readFile graph_loop_entries)
qed









text \<open>
  C8, as amended. Let the walk of \<open>v\<close> succeed, and let \<open>v'\<close> be the vault without the
  unreadable documents of \<open>v\<close>. Then \<open>search\<close> and \<open>fuzzySearch\<close> return on \<open>v\<close> what they
  return on \<open>v'\<close>. \<open>graphSearch\<close> returns the entries that it returns when every unreadable
  document has an empty body, without the entries of the unreadable documents. None of the
  three fails.
\<close>

theorem unreadable_document_skipped:
  assumes "getAllMarkdownFiles v = Inr files"
    and "getAllMarkdownFiles v' = Inr (filter (readable (readFile v)) files)"
    and "readFile v' = readFile v"
  shows "search P S v q m ctx t inc = search P S v' q m ctx t inc
    \<and> fuzzySearch P v q m = fuzzySearch P v' q m
    \<and> graphSearch P v d s io =
        map_sum id (filter (\<lambda>r. readable (readFile v) (g_path r)))
          (graphSearch P (v\<lparr>readFile := reads_empty (readFile v)\<rparr>) d s io)
    \<and> \<not> isl (search P S v q m ctx t inc) \<and> \<not> isl (fuzzySearch P v q m)
    \<and> \<not> isl (graphSearch P v d s io)"
proof -
  have 1: "search P S v q m ctx t inc = search P S v' q m ctx t inc"
    using assms by (simp add: search_def search_loop_readable)
  have 2: "fuzzySearch P v q m = fuzzySearch P v' q m"
    using assms by (simp add: fuzzySearch_def fuzzy_entries_readable)
  have 3: "\<not> isl (search P S v q m ctx t inc)" "\<not> isl (fuzzySearch P v q m)"
    "\<not> isl (graphSearch P v d s io)"
    using assms(1) by (simp_all add: search_def fuzzySearch_def graphSearch_def buildLinkGraph_def)
  from 1 2 3 graphSearch_reads_empty [of P v d s io] show ?thesis
    by simp
qed

theorem unreadable_document_skipped_witness:
  "getAllMarkdownFiles vault_unreadable = Inr [''A.md'', ''X.md'', ''sub/X.md'']
   \<and> getAllMarkdownFiles vault_removed = Inr [''A.md'', ''sub/X.md'']
   \<and> filter (readable (readFile vault_unreadable)) [''A.md'', ''X.md'', ''sub/X.md'']
       = [''A.md'', ''sub/X.md'']
   \<and> readFile vault_removed = readFile vault_unreadable
   \<and> search example_parse example_stringify vault_unreadable ''x'' 20 2 Filename True
       = search example_parse example_stringify vault_removed ''x'' 20 2 Filename True
   \<and> fuzzySearch example_parse vault_unreadable ''x'' 20 = fuzzySearch example_parse vault_removed ''x'' 20
   \<and> \<not> isl (graphSearch example_parse vault_unreadable 2 None False)"
proof -
  have 1: "getAllMarkdownFiles vault_unreadable = Inr [''A.md'', ''X.md'', ''sub/X.md'']"
    by code_simp
  have f: "filter (readable (readFile vault_unreadable)) [''A.md'', ''X.md'', ''sub/X.md'']
       = [''A.md'', ''sub/X.md'']"
    by (simp add: readable_def vault_unreadable_def)
  have g: "getAllMarkdownFiles vault_removed = Inr [''A.md'', ''sub/X.md'']"
    by code_simp
  with f have 2: "getAllMarkdownFiles vault_removed
      = Inr (filter (readable (readFile vault_unreadable)) [''A.md'', ''X.md'', ''sub/X.md''])"
    by simp
  have 3: "readFile vault_removed = readFile vault_unreadable"
    by (simp add: vault_removed_def vault_unreadable_def)
  note t = unreadable_document_skipped
      [OF 1 2 3, of example_parse example_stringify "''x''" 20 2 Filename True 2 None False]
  from t have a: "search example_parse example_stringify vault_unreadable ''x'' 20 2 Filename True
       = search example_parse example_stringify vault_removed ''x'' 20 2 Filename True"
    by (rule conjunct1)
  from t have b: "fuzzySearch example_parse vault_unreadable ''x'' 20
       = fuzzySearch example_parse vault_removed ''x'' 20"
    by blast
  from t have c: "\<not> isl (graphSearch example_parse vault_unreadable 2 None False)"
    by blast
  from 1 g f 3 a b c show ?thesis
    by (intro conjI)
qed

text \<open>
  C8 as stated fails for \<open>graphSearch\<close>: the unreadable \<open>X.md\<close> is still the file that the
  link \<open>X\<close> of \<open>A.md\<close> resolves to, so \<open>sub/X.md\<close> has no backlink and is dropped as an
  orphan; on the vault without \<open>X.md\<close> it is returned.
\<close>

theorem unreadable_link_target_counterexample:
  "readFile vault_unreadable ''X.md'' = None
   \<and> getAllMarkdownFiles vault_unreadable = Inr [''A.md'', ''X.md'', ''sub/X.md'']
   \<and> getAllMarkdownFiles vault_removed = Inr [''A.md'', ''sub/X.md'']
   \<and> map_sum id (map g_path) (graphSearch example_parse vault_unreadable 2 None False)
       = Inr [''A.md'']
   \<and> map_sum id (map g_path) (graphSearch example_parse vault_removed 2 None False)
       = Inr [''A.md'', ''sub/X.md'']"
  by code_simp


section \<open>Tags\<close>






text \<open>
  Tags can be inherited: when the front matter assigns an object with a \<open>tags\<close> list to
  \<open>__proto__\<close>, the elements of that list are the tags, and a tag that is not a string makes
  the search on the tags throw.
\<close>

lemma inherited_tags:
  assumes "P ''{\"tags\": [1]}'' = Some (JObj [(''tags'', JArr [JNum n])])"
  shows "extractTags P note_inherited = [JNum n, JStr ''#x'']"
    and "searchFile P S f note_inherited ''x'' Tags ctx inc = Inl TypeError"
proof -
  have l: "split_nl ''__proto__: {\"tags\": [1]}'' = [''__proto__: {\"tags\": [1]}'']"
    by code_simp
  have p: "parse_line P ''__proto__: {\"tags\": [1]}'' = Some (''__proto__'', JObj [(''tags'', JArr [JNum n])])"
    using assms
    by (simp add: parse_line_def Let_def trim_def is_white_def strip_quotes_def is_quote_def)
  have i: "inline_tags note_inherited = [''#x'']"
    by code_simp
  have f: "extractFrontmatter P note_inherited
      = \<lparr>own = [], prototype = Object_value [(''tags'', JArr [JNum n])]\<rparr>"
    unfolding extractFrontmatter_def note_inherited_def
    by (simp add: l p js_set_def empty_object_def del: split_nl.simps)
  show t: "extractTags P note_inherited = [JNum n, JStr ''#x'']"
    by (simp add: extractTags_def f i get_tags_def tag_add_def)
  show "searchFile P S f note_inherited ''x'' Tags ctx inc = Inl TypeError"
    by (simp add: searchFile_def t Let_def)
qed











section \<open>Fuzzy search\<close>

text \<open>
  The exact-name bonus is earned when the lower-cased name without its first \<open>.md\<close> is the
  lower-cased query. A readable document that earns it scores at least 100 and stands in
  the returned ranking before every document whose name earns nothing.
\<close>

lemma filename_score_exact:
  "remove_first ''.md'' (toLowerCase (basename f)) = toLowerCase q \<Longrightarrow> 100 \<le> filename_score f q"
  by (simp add: filename_score_def Let_def)

lemma content_score_le: "content_score c q \<le> 30"
  by (simp add: content_score_def Let_def)

lemma slice_prefix: "\<exists>k. slice xs 0 m = take k xs"
  by (auto simp: slice_def Let_def)

lemma sorted_desc_nth:
  assumes "sorted (map (\<lambda>a. - score a) xs)" "i < length xs" "j < length xs"
    "score (xs ! j) < score (xs ! i)"
  shows "i < j"
proof (rule ccontr)
  assume "\<not> i < j"
  then have "j \<le> i" by simp
  with assms(1,2) have "map (\<lambda>a. - score a) xs ! j \<le> map (\<lambda>a. - score a) xs ! i"
    by (intro sorted_nth_mono) simp_all
  with assms(2,3,4) show False by simp
qed

lemma fuzzy_exact_first:
  assumes res: "fuzzySearch P v q m = Inr results"
    and files: "getAllMarkdownFiles v = Inr files"
    and a: "fa \<in> set files" "readFile v fa = Some ca"
      "remove_first ''.md'' (toLowerCase (basename fa)) = toLowerCase q"
    and b: "j < length results" "path (results ! j) = fb" "filename_score fb q = 0"
  shows "\<exists>i<j. path (results ! i) = fa"
proof -
  let ?scored = "List.map_filter (fuzzy_entry P (readFile v) q) files"
  let ?sorted = "sort_key (\<lambda>a. - score a) ?scored"
  obtain k where k: "slice ?sorted 0 m = take k ?sorted"
    using slice_prefix by blast
  from res files have results: "results = map result (take k ?sorted)"
    by (simp add: fuzzySearch_def fuzzy_rank_def k)
  have entry: "s_file x \<in> set files \<and> path (result x) = s_file x
      \<and> (\<exists>c. readFile v (s_file x) = Some c \<and> score x = filename_score (s_file x) q + content_score c q)"
    if "x \<in> set ?scored" for x
    using that
    by (auto simp: List.map_filter_def fuzzy_entry_def Let_def split: option.splits if_splits)
  let ?ea = "\<lparr>s_file = fa, score = filename_score fa q + content_score ca q,
      result = \<lparr>filename = basename fa, path = fa, matches = fuzzy_matches ca (toLowerCase q),
                frontmatter = extractFrontmatter P ca\<rparr>\<rparr>"
  have sa: "100 \<le> score ?ea"
    using filename_score_exact [OF a(3)] by (simp add: content_score_def Let_def)
  then have "fuzzy_entry P (readFile v) q fa = Some ?ea"
    using a(2) by (simp add: fuzzy_entry_def Let_def)
  with a(1) have "?ea \<in> set ?scored"
    by (force simp: List.map_filter_def)
  then have "?ea \<in> set ?sorted" by simp
  then obtain i where i: "i < length ?sorted" "?sorted ! i = ?ea"
    unfolding in_set_conv_nth by blast
  from b(1) results have j: "j < k" "j < length ?sorted" by simp_all
  then have "?sorted ! j \<in> set ?scored"
    by (metis nth_mem set_sort)
  from entry [OF this] b(2) results j obtain c where
    "score (?sorted ! j) = filename_score fb q + content_score c q"
    by auto
  with b(3) content_score_le [of c q] have sb: "score (?sorted ! j) \<le> 30" by simp
  have "sorted (map (\<lambda>a. - score a) ?sorted)"
    by (rule sorted_sort_key)
  from sorted_desc_nth [OF this i(1) j(2)] sa sb i(2) have "i < j" by simp
  moreover from this j i(2) results have "path (results ! i) = fa" by simp
  ultimately show ?thesis by blast
qed


text \<open>
  C5 fails on the code. The name \<open>x.mdy.md\<close> without its extension is \<open>x.mdy\<close>, the query;
  but \<open>replace('.md', '')\<close> cuts the first \<open>.md\<close> of the name and leaves \<open>xy.md\<close>, so the
  bonus of 100 is not given and the document scores 80.
\<close>

theorem fuzzy_exact_name_below_100:
  "basename_ext ''x.mdy.md'' ''.md'' = ''x.mdy''
   \<and> toLowerCase ''x.mdy'' = ''x.mdy''
   \<and> remove_first ''.md'' (toLowerCase (basename ''x.mdy.md'')) = ''xy.md''
   \<and> filename_score ''x.mdy.md'' ''x.mdy'' = 80
   \<and> map score (List.map_filter (fuzzy_entry example_parse (readFile vault_mdy) ''x.mdy'')
                  [''other.md'', ''x.mdy.md'']) = [30, 80]
   \<and> map_sum id (map path) (fuzzySearch example_parse vault_mdy ''x.mdy'' 10)
       = Inr [''x.mdy.md'', ''other.md'']"
  by code_simp


end
